theory Spec2Isabelle
  imports Complex_Main "HOL-Library.Sublist"
begin

section \<open>Data model of the shape detector (src/src/main.ts)\<close>

text \<open>
  A TypeScript \<open>number\<close> is modelled by \<open>int\<close> where the program only ever holds
  integers (pixel coordinates, array indices, byte values as \<open>nat\<close>) and by \<open>real\<close>
  where it divides or takes roots. Real arithmetic is exact: the rounding of IEEE
  doubles is not modelled. The one non-number that the program can produce, NaN (from
  \<open>0 / 0\<close> or from arithmetic on the \<open>undefined\<close> of an out-of-range read), is
  modelled by \<open>None\<close> in a \<open>real option\<close>. Limits of the JavaScript engine (largest
  array, number of arguments of a call, depth of the recursion) are not modelled either.

  The interface \<open>Point\<close> has the fields \<open>x\<close> and \<open>y\<close>; they are called \<open>px\<close> and
  \<open>py\<close> here, and the record is polymorphic in the coordinate type: blob points are
  integer pixels, the centroid of \<open>computeCenter\<close> is not.
\<close>

record 'a Point =
  px :: 'a
  py :: 'a

datatype ShapeType = Circle | Triangle | Rectangle | Pentagon | Star

record BoundingBox =
  bb_x :: int
  bb_y :: int
  bb_width :: int
  bb_height :: int

record DetectedShape =
  shape_type :: ShapeType
  confidence :: real
  boundingBox :: BoundingBox
  center :: "real Point"
  area :: int

text \<open>\<open>DetectionResult\<close> without \<open>processingTime\<close>, which is a clock reading.\<close>

record DetectionResult =
  shapes :: "DetectedShape list"
  imageWidth :: int
  imageHeight :: int

section \<open>Confidence score\<close>

text \<open>The \<open>switch\<close> of \<open>computeConfidence\<close>: \<open>base\<close> starts at 0.8 and every label
  of the closed type overrides it.\<close>

fun baseScore :: "ShapeType \<Rightarrow> real" where
  "baseScore Triangle = 0.9"
| "baseScore Rectangle = 0.9"
| "baseScore Pentagon = 0.85"
| "baseScore Circle = 0.95"
| "baseScore Star = 0.8"

definition computeConfidence :: "ShapeType \<Rightarrow> int Point list \<Rightarrow> int Point list \<Rightarrow> real" where
  "computeConfidence type approx contour =
     (let base = baseScore type;
          sizeFactor = min 1 (real (length contour) / 500)
      in min 1 (base * (0.8 + 0.2 * sizeFactor)))"

section \<open>Polygon simplification (Ramer-Douglas-Peucker)\<close>

text \<open>\<open>Math.hypot\<close> of two arguments.\<close>

definition hypot :: "real \<Rightarrow> real \<Rightarrow> real" where
  "hypot a b = sqrt (a\<^sup>2 + b\<^sup>2)"

definition perpendicularDistance :: "int Point \<Rightarrow> int Point \<Rightarrow> int Point \<Rightarrow> real" where
  "perpendicularDistance p a b =
     (let num = \<bar>real_of_int ((py b - py a) * px p - (px b - px a) * py p
                                + px b * py a - py b * px a)\<bar>;
          den = hypot (real_of_int (px b - px a)) (real_of_int (py b - py a))
      in if den = 0 then 0 else num / den)"

text \<open>The body of the \<open>for\<close> loop of \<open>rdpSimplify\<close>, on the pair \<open>(index, maxDist)\<close>,
  and the loop itself, for \<open>i\<close> from 1 to \<open>points.length - 2\<close>.\<close>

definition rdpStep ::
  "int Point list \<Rightarrow> int Point \<Rightarrow> int Point \<Rightarrow> nat \<Rightarrow> int \<times> real \<Rightarrow> int \<times> real" where
  "rdpStep points first last' i st =
     (let d = perpendicularDistance (points ! i) first last'
      in if d > snd st then (int i, d) else st)"

definition rdpScan :: "int Point list \<Rightarrow> int Point \<Rightarrow> int Point \<Rightarrow> int \<times> real" where
  "rdpScan points first last' =
     fold (rdpStep points first last') [1..<length points - 1] (-1, 0)"

lemma rdpScan_fold_range:
  "fst (fold (rdpStep points first last') is st) = fst st
   \<or> fst (fold (rdpStep points first last') is st) \<in> int ` set is"
proof (induction "is" arbitrary: st)
  case Nil
  show ?case by simp
next
  case (Cons i "is")
  have step: "fst (rdpStep points first last' i st) = fst st
              \<or> fst (rdpStep points first last' i st) = int i"
    by (simp add: rdpStep_def Let_def)
  from Cons.IH [of "rdpStep points first last' i st"] step show ?case
    by auto
qed

lemma rdpScan_index:
  assumes "rdpScan points first last' = (index, maxDist)" and "index \<noteq> -1"
  shows "1 \<le> index \<and> index < int (length points) - 1"
proof -
  from rdpScan_fold_range [of points first last' "[1..<length points - 1]" "(-1, 0)"] assms
  have "index \<in> int ` set [1..<length points - 1]"
    by (simp add: rdpScan_def)
  then show ?thesis by auto
qed

text \<open>\<open>points.slice(0, index + 1)\<close> is \<open>take (index + 1)\<close>, \<open>points.slice(index)\<close> is
  \<open>drop index\<close>, and \<open>left.slice(0, -1)\<close> is \<open>butlast left\<close>.\<close>

function rdpSimplify :: "int Point list \<Rightarrow> real \<Rightarrow> int Point list" where
  "rdpSimplify points tolerance =
     (if length points < 3 then points
      else
        let first = points ! 0;
            last' = points ! (length points - 1);
            scan = rdpScan points first last';
            index = fst scan;
            maxDist = snd scan
        in if maxDist > tolerance \<and> index \<noteq> -1 then
             let left = rdpSimplify (take (nat (index + 1)) points) tolerance;
                 right = rdpSimplify (drop (nat index) points) tolerance
             in butlast left @ right
           else [first, last'])"
  by pat_completeness auto
termination
proof (relation "measure (\<lambda>(points, tolerance). length points)")
  show "wf (measure (\<lambda>(points, tolerance). length points))" by simp
next
  fix points :: "int Point list" and tolerance :: real
  fix first last' scan index maxDist
  assume "\<not> length points < 3"
    and "first = points ! 0" and "last' = points ! (length points - 1)"
    and "scan = rdpScan points first last'"
    and "index = fst scan" and "maxDist = snd scan"
    and "tolerance < maxDist \<and> index \<noteq> - 1"
  then have "1 \<le> index \<and> index < int (length points) - 1"
    using rdpScan_index [of points first last' index maxDist] by simp
  then show "((take (nat (index + 1)) points, tolerance), (points, tolerance))
              \<in> measure (\<lambda>(points, tolerance). length points)"
    by auto
next
  fix points :: "int Point list" and tolerance :: real
  fix first last' scan index maxDist left
  assume "\<not> length points < 3"
    and "first = points ! 0" and "last' = points ! (length points - 1)"
    and "scan = rdpScan points first last'"
    and "index = fst scan" and "maxDist = snd scan"
    and "tolerance < maxDist \<and> index \<noteq> - 1"
  then have "1 \<le> index \<and> index < int (length points) - 1"
    using rdpScan_index [of points first last' index maxDist] by simp
  then show "((drop (nat index) points, tolerance), (points, tolerance))
              \<in> measure (\<lambda>(points, tolerance). length points)"
    by auto
qed

declare rdpSimplify.simps [simp del]

section \<open>Shape classification\<close>

text \<open>\<open>computeCenter\<close> divides by \<open>points.length\<close>. On the empty list both sums are 0
  and both coordinates are \<open>0 / 0\<close>, NaN: that point is \<open>None\<close> here.\<close>

definition computeCenter :: "int Point list \<Rightarrow> real Point option" where
  "computeCenter points =
     (let sx = foldl (\<lambda>a p. a + px p) 0 points;
          sy = foldl (\<lambda>a p. a + py p) 0 points
      in if length points = 0 then None
         else Some \<lparr>px = real_of_int sx / real (length points),
                    py = real_of_int sy / real (length points)\<rparr>)"

text \<open>The list \<open>radii\<close>, the mean and the variance of \<open>classifyShape\<close>, for a centroid
  that is a number.\<close>

definition radiiOf :: "real Point \<Rightarrow> int Point list \<Rightarrow> real list" where
  "radiiOf c contour =
     map (\<lambda>p. hypot (real_of_int (px p) - px c) (real_of_int (py p) - py c)) contour"

definition meanOf :: "real list \<Rightarrow> real" where
  "meanOf radii = foldl (\<lambda>a b. a + b) 0 radii / real (length radii)"

definition varianceOf :: "real list \<Rightarrow> real" where
  "varianceOf radii =
     foldl (\<lambda>a b. a + (b - meanOf radii)\<^sup>2) 0 radii / real (length radii)"

text \<open>The coefficient of variation \<open>cv\<close>. It is NaN (\<open>None\<close>) in two cases: the
  contour is empty, so that the centroid, the mean and the variance are all \<open>0 / 0\<close>;
  or the mean radius is 0, so that every radius and the variance are 0 and \<open>cv\<close> is
  \<open>0 / 0\<close> (lemma \<open>mean_zero_variance_zero\<close> below).\<close>

definition coefficientOfVariation :: "int Point list \<Rightarrow> real option" where
  "coefficientOfVariation contour =
     (case computeCenter contour of
        None \<Rightarrow> None
      | Some c \<Rightarrow>
          let radii = radiiOf c contour;
              mean = meanOf radii;
              variance = varianceOf radii
          in if mean = 0 then None else Some (sqrt variance / mean))"

text \<open>\<open>classifyShape\<close>; the comparison \<open>cv < 0.15\<close> is false when \<open>cv\<close> is NaN. The
  parameters \<open>w\<close> and \<open>h\<close> are unused in the source too.\<close>

definition classifyShape ::
  "int Point list \<Rightarrow> int Point list \<Rightarrow> int \<Rightarrow> int \<Rightarrow> ShapeType" where
  "classifyShape approx contour w h =
     (let v = length approx
      in if v = 3 then Triangle
         else if v = 4 then Rectangle
         else if v = 5 then Pentagon
         else case coefficientOfVariation contour of
                None \<Rightarrow> Star
              | Some cv \<Rightarrow> if cv < 0.15 then Circle else Star)"

section \<open>The detection pipeline\<close>

text \<open>The loops \<open>for (let i = 0; i < n; i++)\<close> run over \<open>range0 n\<close>, which is empty
  when \<open>n\<close> is not positive.\<close>

definition range0 :: "int \<Rightarrow> int list" where
  "range0 n = map int [0..<nat n]"

subsection \<open>Step 1: grayscale\<close>

text \<open>The pixel buffer is a list of channel values (bytes, as \<open>nat\<close>). A read past the
  end of the buffer is \<open>undefined\<close>, the weighted sum is then NaN, and storing NaN
  into a \<open>Uint8ClampedArray\<close> stores 0. \<open>Math.round\<close> rounds half up, and the
  clamped array keeps the value at most 255. The weighted sum is exact here and rounded
  to a double in the code, so the two grey values differ by 1 where the exact sum ends in
  .5 and the double falls below it: for the colour (0, 36, 12) the exact sum is 22.5, the
  value here is 23 and the code stores 22.\<close>

definition luminance :: "nat list \<Rightarrow> nat \<Rightarrow> nat" where
  "luminance data i =
     (if i * 4 + 2 < length data then
        min 255 (nat \<lfloor>0.299 * real (data ! (i * 4)) + 0.587 * real (data ! (i * 4 + 1))
                       + 0.114 * real (data ! (i * 4 + 2)) + 1 / 2\<rfloor>)
      else 0)"

definition toGrayscale :: "nat list \<Rightarrow> int \<Rightarrow> int \<Rightarrow> nat list" where
  "toGrayscale data width height = map (luminance data) [0..<nat (width * height)]"

subsection \<open>Step 2: background level and polarity\<close>

text \<open>\<open>gray[i]\<close>: \<open>None\<close> is the \<open>undefined\<close> of an out-of-range read.\<close>

definition grayAt :: "nat list \<Rightarrow> int \<Rightarrow> nat option" where
  "grayAt gray i = (if 0 \<le> i \<and> nat i < length gray then Some (gray ! nat i) else None)"

text \<open>\<open>borderSum += a + b\<close>: the sum is NaN (\<open>None\<close>) as soon as one operand is
  \<open>undefined\<close> or NaN.\<close>

definition addBorder :: "nat option \<Rightarrow> nat option \<Rightarrow> nat option \<Rightarrow> nat option" where
  "addBorder s a b =
     (case s of None \<Rightarrow> None
      | Some s' \<Rightarrow> (case a of None \<Rightarrow> None
         | Some a' \<Rightarrow> (case b of None \<Rightarrow> None | Some b' \<Rightarrow> Some (s' + (a' + b')))))"

definition borderRows :: "nat list \<Rightarrow> int \<Rightarrow> int \<Rightarrow> int \<Rightarrow> nat option \<times> nat \<Rightarrow> nat option \<times> nat" where
  "borderRows gray width height x st =
     (addBorder (fst st) (grayAt gray x) (grayAt gray ((height - 1) * width + x)), snd st + 2)"

definition borderCols :: "nat list \<Rightarrow> int \<Rightarrow> int \<Rightarrow> int \<Rightarrow> nat option \<times> nat \<Rightarrow> nat option \<times> nat" where
  "borderCols gray width height y st =
     (addBorder (fst st) (grayAt gray (y * width)) (grayAt gray (y * width + (width - 1))),
      snd st + 2)"

definition borderStats :: "nat list \<Rightarrow> int \<Rightarrow> int \<Rightarrow> nat option \<times> nat" where
  "borderStats gray width height =
     fold (borderCols gray width height) (range0 height)
       (fold (borderRows gray width height) (range0 width) (Some 0, 0))"

text \<open>\<open>borderSum / borderCount\<close>; with no border pixel sampled it is \<open>0 / 0\<close>.\<close>

definition bgLevel :: "nat list \<Rightarrow> int \<Rightarrow> int \<Rightarrow> real option" where
  "bgLevel gray width height =
     (case fst (borderStats gray width height) of
        None \<Rightarrow> None
      | Some borderSum \<Rightarrow>
          let borderCount = snd (borderStats gray width height)
          in if borderCount = 0 then None else Some (real borderSum / real borderCount))"

definition avgLevel :: "nat list \<Rightarrow> real option" where
  "avgLevel gray =
     (if length gray = 0 then None
      else Some (real (foldl (\<lambda>a b. a + b) 0 gray) / real (length gray)))"

text \<open>\<open>avgLevel < bgLevel\<close>, false when either side is NaN.\<close>

definition darkShapes :: "nat list \<Rightarrow> int \<Rightarrow> int \<Rightarrow> bool" where
  "darkShapes gray width height =
     (case avgLevel gray of
        None \<Rightarrow> False
      | Some a \<Rightarrow> (case bgLevel gray width height of None \<Rightarrow> False | Some b \<Rightarrow> a < b))"

subsection \<open>Step 3: thresholding\<close>

text \<open>The products \<open>bgLevel * 0.9\<close> and \<open>bgLevel * 1.1\<close> are exact here and rounded to
  doubles in the code (for a border level of 600 / 36 the threshold is 15 here and
  15.000000000000002 in the code); they agree for the border levels 0 and 255.\<close>

definition threshold :: "nat list \<Rightarrow> int \<Rightarrow> int \<Rightarrow> real option" where
  "threshold gray width height =
     (case bgLevel gray width height of
        None \<Rightarrow> None
      | Some b \<Rightarrow> Some (if darkShapes gray width height then b * 0.9 else b * 1.1))"

text \<open>One cell of \<open>binary\<close>; both comparisons are false against a NaN threshold.\<close>

definition binarizePixel :: "bool \<Rightarrow> real option \<Rightarrow> nat \<Rightarrow> nat" where
  "binarizePixel dark thr g =
     (case thr of
        None \<Rightarrow> 0
      | Some t \<Rightarrow> if dark then (if real g < t then 1 else 0)
                  else (if real g > t then 1 else 0))"

definition binarize :: "nat list \<Rightarrow> int \<Rightarrow> int \<Rightarrow> nat list" where
  "binarize gray width height =
     map (binarizePixel (darkShapes gray width height) (threshold gray width height)) gray"

subsection \<open>Step 4: connected components by flood fill\<close>

text \<open>
  \<open>binary\<close> and \<open>visited\<close> are arrays of \<open>width * height\<close> cells. Every index used in
  this step is \<open>idx x y\<close> for a pixel that comes from the loop bounds or has passed
  \<open>inBounds\<close>, hence lies below \<open>width * height\<close> (lemma \<open>idx_less\<close>): no read or
  write of this step is out of range. The guards \<open>i < length \<dots>\<close> below say so and are
  true in every state the program reaches.

  The stack is a list with its top at the head: \<open>push\<close> is \<open>#\<close>, \<open>pop\<close> takes the head.
\<close>

definition dirs :: "(int \<times> int) list" where
  "dirs = [(1, 0), (-1, 0), (0, 1), (0, -1), (1, 1), (-1, -1), (1, -1), (-1, 1)]"

definition inBounds :: "int \<Rightarrow> int \<Rightarrow> int \<Rightarrow> int \<Rightarrow> bool" where
  "inBounds width height x y \<longleftrightarrow> x \<ge> 0 \<and> y \<ge> 0 \<and> x < width \<and> y < height"

definition idx :: "int \<Rightarrow> int \<Rightarrow> int \<Rightarrow> nat" where
  "idx width x y = nat (y * width + x)"

text \<open>The body of \<open>for (const [dx, dy] of dirs)\<close>, on the pair (visited, stack).\<close>

definition visitNeighbour ::
  "int \<Rightarrow> int \<Rightarrow> nat list \<Rightarrow> int Point \<Rightarrow> int \<times> int
     \<Rightarrow> nat list \<times> int Point list \<Rightarrow> nat list \<times> int Point list" where
  "visitNeighbour width height binary p d st =
     (let nx = px p + fst d;
          ny = py p + snd d
      in if \<not> inBounds width height nx ny then st
         else
           let ni = idx width nx ny;
               visited = fst st;
               stack = snd st
           in if ni < length visited \<and> visited ! ni = 0 \<and> ni < length binary \<and> binary ! ni = 1
              then (visited[ni := 1], \<lparr>px = nx, py = ny\<rparr> # stack)
              else st)"

lemma count_list_update_zero:
  "i < length xs \<Longrightarrow> xs ! i = 0 \<Longrightarrow> Suc (count_list (xs[i := Suc 0]) 0) = count_list xs (0::nat)"
proof (induction xs arbitrary: i)
  case Nil
  then show ?case by simp
next
  case (Cons a xs)
  then show ?case by (cases i) auto
qed

lemma visitNeighbour_measure:
  "count_list (fst (visitNeighbour width height binary p d st)) 0
     + length (snd (visitNeighbour width height binary p d st))
   = count_list (fst st) 0 + length (snd st)"
  using count_list_update_zero [of "idx width (px p + fst d) (py p + snd d)" "fst st"]
  by (simp add: visitNeighbour_def Let_def)

lemma fold_visitNeighbour_measure:
  "count_list (fst (fold (visitNeighbour width height binary p) ds st)) 0
     + length (snd (fold (visitNeighbour width height binary p) ds st))
   = count_list (fst st) 0 + length (snd st)"
  by (induction ds arbitrary: st) (simp_all add: visitNeighbour_measure)

text \<open>The \<open>while (stack.length)\<close> loop: pop \<open>p\<close>, append it to \<open>blob\<close>, visit its eight
  neighbours. It returns the final \<open>visited\<close> and \<open>blob\<close>.\<close>

function floodFill ::
  "int \<Rightarrow> int \<Rightarrow> nat list \<Rightarrow> nat list \<Rightarrow> int Point list \<Rightarrow> int Point list
     \<Rightarrow> nat list \<times> int Point list" where
  "floodFill width height binary visited [] blob = (visited, blob)"
| "floodFill width height binary visited (p # stack) blob =
     floodFill width height binary
       (fst (fold (visitNeighbour width height binary p) dirs (visited, stack)))
       (snd (fold (visitNeighbour width height binary p) dirs (visited, stack)))
       (blob @ [p])"
  by pat_completeness auto
termination
proof (relation "measure (\<lambda>(width, height, binary, visited, stack, blob).
                    count_list visited 0 + length stack)")
  show "wf (measure (\<lambda>(width, height, binary, visited, stack, blob).
              count_list visited (0::nat) + length stack))"
    by simp
next
  fix width height :: int and binary visited :: "nat list"
    and p :: "int Point" and stack blob :: "int Point list"
  show "((width, height, binary,
          fst (fold (visitNeighbour width height binary p) dirs (visited, stack)),
          snd (fold (visitNeighbour width height binary p) dirs (visited, stack)),
          blob @ [p]),
         (width, height, binary, visited, p # stack, blob))
        \<in> measure (\<lambda>(width, height, binary, visited, stack, blob).
                     count_list visited 0 + length stack)"
    using fold_visitNeighbour_measure [of width height binary p dirs "(visited, stack)"]
    by simp
qed

declare floodFill.simps [simp del]

text \<open>The body of the two scanning loops at pixel \<open>(x, y)\<close>, on the pair
  (visited, contours).\<close>

definition scanPixel ::
  "int \<Rightarrow> int \<Rightarrow> nat list \<Rightarrow> int \<times> int
     \<Rightarrow> nat list \<times> int Point list list \<Rightarrow> nat list \<times> int Point list list" where
  "scanPixel width height binary pos st =
     (let x = fst pos;
          y = snd pos;
          id = idx width x y;
          visited = fst st;
          contours = snd st
      in if id < length binary \<and> binary ! id = 1 \<and> id < length visited \<and> visited ! id = 0
         then
           let filled = floodFill width height binary (visited[id := 1]) [\<lparr>px = x, py = y\<rparr>] [];
               blob = snd filled
           in (fst filled, if length blob > 20 then contours @ [blob] else contours)
         else st)"

text \<open>The pixels in scanning order: \<open>y\<close> outside, \<open>x\<close> inside.\<close>

definition scanOrder :: "int \<Rightarrow> int \<Rightarrow> (int \<times> int) list" where
  "scanOrder width height = concat (map (\<lambda>y. map (\<lambda>x. (x, y)) (range0 width)) (range0 height))"

definition findContours :: "int \<Rightarrow> int \<Rightarrow> nat list \<Rightarrow> int Point list list" where
  "findContours width height binary =
     snd (fold (scanPixel width height binary) (scanOrder width height)
            (replicate (nat (width * height)) 0, []))"

subsection \<open>Step 5: one shape per contour\<close>

text \<open>\<open>Math.min(...xs)\<close> and \<open>Math.max(...xs)\<close>. With no argument they are
  \<open>+Infinity\<close> and \<open>-Infinity\<close>, which \<open>int\<close> does not have; the list is never empty
  here, since a contour has more than 20 points, and the value 0 of the first
  equations is never used. The spread passes one argument per point of the blob: on a
  blob larger than the engine's argument limit the calls throw a \<open>RangeError\<close>, which
  these functions do not model (they give the value for a call that returns).\<close>

fun minOf :: "int list \<Rightarrow> int" where
  "minOf [] = 0"
| "minOf (a # as) = fold min as a"

fun maxOf :: "int list \<Rightarrow> int" where
  "maxOf [] = 0"
| "maxOf (a # as) = fold max as a"

definition analyzeContour :: "int Point list \<Rightarrow> DetectedShape" where
  "analyzeContour contour =
     (let xs = map px contour;
          ys = map py contour;
          minX = minOf xs;
          maxX = maxOf xs;
          minY = minOf ys;
          maxY = maxOf ys;
          w = maxX - minX;
          h = maxY - minY;
          center = \<lparr>px = real_of_int (minX + maxX) / 2, py = real_of_int (minY + maxY) / 2\<rparr>;
          approx = rdpSimplify contour 3;
          shapeType = classifyShape approx contour w h;
          area = w * h;
          confidence = computeConfidence shapeType approx contour
      in \<lparr>shape_type = shapeType, confidence = confidence,
          boundingBox = \<lparr>bb_x = minX, bb_y = minY, bb_width = w, bb_height = h\<rparr>,
          center = center, area = area\<rparr>)"

subsection \<open>The whole of \<open>detectShapes\<close>\<close>

text \<open>Steps 2 to 5, from the grayscale buffer on.\<close>

definition detectGray :: "nat list \<Rightarrow> int \<Rightarrow> int \<Rightarrow> DetectionResult" where
  "detectGray gray width height =
     (let binary = binarize gray width height;
          contours = findContours width height binary
      in \<lparr>shapes = map analyzeContour contours, imageWidth = width, imageHeight = height\<rparr>)"

text \<open>\<open>detectShapes\<close> itself checks nothing. Its first statement allocates
  \<open>new Uint8ClampedArray(width * height)\<close>, which throws a \<open>RangeError\<close> for a negative
  length: this is the error path of the model. The function below is the run on an engine
  without resource limits. A real engine also throws a \<open>RangeError\<close> when the length of
  an allocation exceeds its largest array (a width of 2^53, say) and when
  \<open>Math.min(...xs)\<close> or \<open>Math.max(...xs)\<close> is given more arguments than it accepts (a
  blob of 160000 pixels, say); these limits differ between engines and are not part of
  the model, so nothing below says that a call on a large image returns.\<close>

datatype error = RangeError

definition detectShapes :: "nat list \<Rightarrow> int \<Rightarrow> int \<Rightarrow> error + DetectionResult" where
  "detectShapes data width height =
     (if width * height < 0 then Inl RangeError
      else Inr (detectGray (toGrayscale data width height) width height))"

section \<open>Notions used to state the properties\<close>

text \<open>The blobs that survive the noise filter, in discovery order: the list \<open>contours\<close>
  of \<open>detectShapes\<close>, from which the shapes are computed one by one.\<close>


definition sourceBlobs :: "nat list \<Rightarrow> int \<Rightarrow> int \<Rightarrow> int Point list list" where
  "sourceBlobs data width height =
     findContours width height (binarize (toGrayscale data width height) width height)"

text \<open>A small test image used to instantiate the theorems: 7 by 7 pixels, background
  luminance 0, a 5 by 5 square of luminance 15 in the middle; \<open>demoData\<close> is its RGBA
  buffer and \<open>demoBlob\<close> the square's pixels in the order the flood fill finds them.\<close>

definition demoGray :: "nat list" where
  "demoGray =
     concat (map (\<lambda>y. map (\<lambda>x. if 1 \<le> x \<and> x \<le> 5 \<and> 1 \<le> y \<and> y \<le> 5 then 15 else 0)
                        [0..<7]) [0..<7])"

definition demoData :: "nat list" where
  "demoData = concat (map (\<lambda>g. [g, g, g, 255]) demoGray)"

definition demoBlob :: "int Point list" where
  "demoBlob = map (\<lambda>(a, b). \<lparr>px = a, py = b\<rparr>)
     [(1,1),(2,2),(1,3),(2,4),(1,5),(3,5),(4,4),(5,3),(4,2),(5,1),(4,1),(5,2),(5,5),
      (4,3),(5,4),(4,5),(2,5),(3,4),(1,4),(3,1),(3,3),(2,3),(3,2),(1,2),(2,1)]"


text \<open>The well-formed buffer that an arbitrary buffer stands for, at a given width and
  height: a pixel whose three colour channels can all be read keeps them, every other
  pixel is black; the alpha channel, which \<open>detectShapes\<close> never reads, is 255.\<close>

definition completeBuffer :: "nat list \<Rightarrow> int \<Rightarrow> int \<Rightarrow> nat list" where
  "completeBuffer data width height =
     concat (map (\<lambda>i. if i * 4 + 2 < length data
                       then [data ! (i * 4), data ! (i * 4 + 1), data ! (i * 4 + 2), 255]
                       else [0, 0, 0, 255])
                 [0..<nat (width * height)])"

text \<open>The border of the image (first and last row, first and last column) has the
  grayscale value \<open>b\<close> everywhere.\<close>

definition uniformBorder :: "nat list \<Rightarrow> int \<Rightarrow> int \<Rightarrow> nat \<Rightarrow> bool" where
  "uniformBorder gray width height b =
     list_all (\<lambda>pos. (fst pos = 0 \<or> fst pos = width - 1 \<or> snd pos = 0 \<or> snd pos = height - 1)
                      \<longrightarrow> gray ! idx width (fst pos) (snd pos) = b)
       (scanOrder width height)"

text \<open>Two more 7 by 7 test images with a white border (255): the square in the middle
  has luminance 240 in \<open>paleGray\<close> and 0 in \<open>inkGray\<close>.\<close>

definition paleGray :: "nat list" where
  "paleGray =
     concat (map (\<lambda>y. map (\<lambda>x. if 1 \<le> x \<and> x \<le> 5 \<and> 1 \<le> y \<and> y \<le> 5 then 240 else 255)
                        [0..<7]) [0..<7])"

definition inkGray :: "nat list" where
  "inkGray =
     concat (map (\<lambda>y. map (\<lambda>x. if 1 \<le> x \<and> x \<le> 5 \<and> 1 \<le> y \<and> y \<le> 5 then 0 else 255)
                        [0..<7]) [0..<7])"

text \<open>A 9 by 7 test image: the square of \<open>demoGray\<close> and one more pixel of luminance
  15 at (7, 3), which touches nothing; \<open>noisyMask\<close> is its binary mask.\<close>

definition noisyGray :: "nat list" where
  "noisyGray =
     concat (map (\<lambda>y. map (\<lambda>x. if (1 \<le> x \<and> x \<le> 5 \<and> 1 \<le> y \<and> y \<le> 5) \<or> (x = 7 \<and> y = 3)
                                  then 15 else 0)
                        [0..<9]) [0..<7])"

definition noisyData :: "nat list" where
  "noisyData = concat (map (\<lambda>g. [g, g, g, 255]) noisyGray)"

definition noisyMask :: "nat list" where
  "noisyMask = map (\<lambda>g. if 0 < g then 1 else 0) noisyGray"

subsection \<open>Foreground and 8-connected components\<close>

text \<open>The foreground of a mask: the pixels inside the image whose cell is 1.\<close>

definition foreground :: "int \<Rightarrow> int \<Rightarrow> nat list \<Rightarrow> int Point set" where
  "foreground width height binary =
     {p. inBounds width height (px p) (py p) \<and> binary ! idx width (px p) (py p) = 1}"

text \<open>Two different pixels are neighbours when they differ by at most 1 in each
  coordinate (4 axis and 4 diagonal neighbours).\<close>

definition adjacent8 :: "int Point \<Rightarrow> int Point \<Rightarrow> bool" where
  "adjacent8 p q \<longleftrightarrow> p \<noteq> q \<and> \<bar>px p - px q\<bar> \<le> 1 \<and> \<bar>py p - py q\<bar> \<le> 1"

text \<open>The 8-connected component of a pixel: what chains of neighbouring foreground
  pixels reach from it; and the components of a mask.\<close>

definition linked :: "int \<Rightarrow> int \<Rightarrow> nat list \<Rightarrow> (int Point \<times> int Point) set" where
  "linked width height binary =
     {(p, q). p \<in> foreground width height binary \<and> q \<in> foreground width height binary
              \<and> adjacent8 p q}"

definition component :: "int \<Rightarrow> int \<Rightarrow> nat list \<Rightarrow> int Point \<Rightarrow> int Point set" where
  "component width height binary p = {q. (p, q) \<in> (linked width height binary)\<^sup>*}"

definition components :: "int \<Rightarrow> int \<Rightarrow> nat list \<Rightarrow> int Point set set" where
  "components width height binary =
     component width height binary ` foreground width height binary"

subsection \<open>Invariants of the flood fill\<close>

text \<open>The pixels marked in \<open>visited\<close>, and the neighbour of a pixel in a direction.\<close>

definition marked :: "int \<Rightarrow> int \<Rightarrow> nat list \<Rightarrow> int Point set" where
  "marked width height visited =
     {p. inBounds width height (px p) (py p) \<and> visited ! idx width (px p) (py p) \<noteq> 0}"

definition neighbour :: "int Point \<Rightarrow> int \<times> int \<Rightarrow> int Point" where
  "neighbour p d = \<lparr>px = px p + fst d, py = py p + snd d\<rparr>"

text \<open>The invariant of the \<open>while\<close> loop of a fill started at \<open>s\<close>, when \<open>V0\<close> was
  marked before: \<open>L\<close> is \<open>blob @ stack\<close>; it has no repetition, contains \<open>s\<close>, lies in the
  component of \<open>s\<close>, and is exactly what has been marked since the start. All foreground
  neighbours of a pixel already in \<open>blob\<close> are marked.\<close>

definition fillCore ::
  "int \<Rightarrow> int \<Rightarrow> nat list \<Rightarrow> int Point set \<Rightarrow> int Point \<Rightarrow> nat list \<Rightarrow> int Point list \<Rightarrow> bool" where
  "fillCore width height binary V0 s visited L \<longleftrightarrow>
     length visited = nat (width * height)
     \<and> distinct L
     \<and> s \<in> set L
     \<and> set L \<subseteq> component width height binary s
     \<and> marked width height visited = V0 \<union> set L
     \<and> V0 \<inter> set L = {}"

definition fillInv ::
  "int \<Rightarrow> int \<Rightarrow> nat list \<Rightarrow> int Point set \<Rightarrow> int Point \<Rightarrow> nat list
     \<Rightarrow> int Point list \<Rightarrow> int Point list \<Rightarrow> bool" where
  "fillInv width height binary V0 s visited stack blob \<longleftrightarrow>
     fillCore width height binary V0 s visited (blob @ stack)
     \<and> (\<forall>p \<in> set blob. \<forall>q. (p, q) \<in> linked width height binary
            \<longrightarrow> q \<in> marked width height visited)"

text \<open>The invariant of the scan, \<open>D\<close> being the positions already scanned: the marked
  pixels are a union of components and contain every scanned foreground pixel; the
  contours are the marked components of more than 20 pixels, each once.\<close>

definition scanInv ::
  "int \<Rightarrow> int \<Rightarrow> nat list \<Rightarrow> (int \<times> int) set \<Rightarrow> nat list \<Rightarrow> int Point list list \<Rightarrow> bool" where
  "scanInv width height binary D visited contours \<longleftrightarrow>
     length visited = nat (width * height)
     \<and> marked width height visited \<subseteq> foreground width height binary
     \<and> (\<forall>p \<in> marked width height visited. \<forall>q. (p, q) \<in> linked width height binary
            \<longrightarrow> q \<in> marked width height visited)
     \<and> (\<forall>p \<in> foreground width height binary. (px p, py p) \<in> D
            \<longrightarrow> p \<in> marked width height visited)
     \<and> (\<forall>c \<in> set contours. distinct c \<and> 20 < length c
            \<and> set c \<in> components width height binary
            \<and> set c \<subseteq> marked width height visited)
     \<and> (\<forall>p \<in> marked width height visited. 20 < card (component width height binary p)
            \<longrightarrow> (\<exists>c \<in> set contours. set c = component width height binary p))
     \<and> distinct (map set contours)"

subsection \<open>The circularity measure in the words of the specification\<close>

text \<open>The point-average centroid of a blob, the distance of every point to it, and the
  coefficient of variation: standard deviation of the distances over their mean.\<close>

definition centroid :: "int Point list \<Rightarrow> real Point" where
  "centroid ps =
     \<lparr>px = real_of_int (sum_list (map px ps)) / real (length ps),
      py = real_of_int (sum_list (map py ps)) / real (length ps)\<rparr>"

definition radialDistances :: "int Point list \<Rightarrow> real list" where
  "radialDistances ps =
     map (\<lambda>p. sqrt ((real_of_int (px p) - px (centroid ps))\<^sup>2
                     + (real_of_int (py p) - py (centroid ps))\<^sup>2)) ps"

definition mean :: "real list \<Rightarrow> real" where
  "mean xs = sum_list xs / real (length xs)"

definition stddev :: "real list \<Rightarrow> real" where
  "stddev xs = sqrt (sum_list (map (\<lambda>x. (x - mean xs)\<^sup>2) xs) / real (length xs))"

definition specCv :: "int Point list \<Rightarrow> real" where
  "specCv ps = stddev (radialDistances ps) / mean (radialDistances ps)"
section \<open>Evaluation of the test image\<close>

lemma demo_gray: "toGrayscale demoData 7 7 = demoGray"
  by code_simp

lemma demo_contours: "findContours 7 7 (binarize demoGray 7 7) = [demoBlob]"
  by code_simp

lemma demo_sourceBlobs: "sourceBlobs demoData 7 7 = [demoBlob]"
  by (simp add: sourceBlobs_def demo_gray demo_contours)

lemma demo_length: "length demoBlob = 25"
  by (simp add: demoBlob_def)

section \<open>Confidence\<close>

lemma detectShapes_result:
  "detectShapes data width height = Inr result \<Longrightarrow>
   shapes result = map analyzeContour (sourceBlobs data width height)"
  by (auto simp add: detectShapes_def detectGray_def sourceBlobs_def Let_def split: if_splits)

lemma demo_detect:
  "detectShapes demoData 7 7 =
     Inr \<lparr>shapes = [analyzeContour demoBlob], imageWidth = 7, imageHeight = 7\<rparr>"
  by (simp add: detectShapes_def detectGray_def demo_gray demo_contours)

lemma list_all2_map_same:
  "(\<And>c. c \<in> set cs \<Longrightarrow> P (f c) c) \<Longrightarrow> list_all2 P (map f cs) cs"
  by (simp add: list_all2_map1 list_all2_same)

lemma analyzeContour_confidence:
  "confidence (analyzeContour contour) =
     computeConfidence (shape_type (analyzeContour contour)) (rdpSimplify contour 3) contour"
  by (simp add: analyzeContour_def Let_def)

lemma computeConfidence_unclamped:
  "computeConfidence t approx contour
     = baseScore t * (0.8 + 0.2 * min 1 (real (length contour) / 500))"
  by (cases t) (simp_all add: computeConfidence_def Let_def min_def)

lemma computeConfidence_bounds:
  "0.64 \<le> computeConfidence t approx contour \<and> computeConfidence t approx contour \<le> 0.95"
  by (cases t) (simp_all add: computeConfidence_def Let_def min_def)

lemma computeConfidence_table:
  "computeConfidence t approx contour =
     min 1 ((case t of Triangle \<Rightarrow> 0.9 | Rectangle \<Rightarrow> 0.9 | Pentagon \<Rightarrow> 0.85
              | Circle \<Rightarrow> 0.95 | Star \<Rightarrow> 0.8)
            * (0.8 + 0.2 * min 1 (real (length contour) / 500)))"
  by (cases t) (simp_all add: computeConfidence_def Let_def)

text \<open>
  Claim C4. Every shape that \<open>detectShapes\<close> returns has the confidence
  \<open>min(1, base * (0.8 + 0.2 * min(1, n / 500)))\<close>, where \<open>n\<close> is the number of points
  of its source blob and \<open>base\<close> is 0.9 for a triangle, 0.9 for a rectangle, 0.85 for a
  pentagon, 0.95 for a circle and 0.8 for a star; the confidence lies in [0, 1].
\<close>

theorem confidence_formula:
  assumes "detectShapes data width height = Inr result"
  shows "list_all2
           (\<lambda>s contour.
              confidence s =
                min 1 ((case shape_type s of Triangle \<Rightarrow> 0.9 | Rectangle \<Rightarrow> 0.9
                         | Pentagon \<Rightarrow> 0.85 | Circle \<Rightarrow> 0.95 | Star \<Rightarrow> 0.8)
                       * (0.8 + 0.2 * min 1 (real (length contour) / 500)))
              \<and> 0 \<le> confidence s \<and> confidence s \<le> 1)
           (shapes result) (sourceBlobs data width height)"
proof -
  have "confidence (analyzeContour c) =
          min 1 ((case shape_type (analyzeContour c) of Triangle \<Rightarrow> 0.9 | Rectangle \<Rightarrow> 0.9
                   | Pentagon \<Rightarrow> 0.85 | Circle \<Rightarrow> 0.95 | Star \<Rightarrow> 0.8)
                 * (0.8 + 0.2 * min 1 (real (length c) / 500)))
        \<and> 0 \<le> confidence (analyzeContour c) \<and> confidence (analyzeContour c) \<le> 1" for c
    using computeConfidence_table [of "shape_type (analyzeContour c)" "rdpSimplify c 3" c]
      computeConfidence_bounds [of "shape_type (analyzeContour c)" "rdpSimplify c 3" c]
    by (simp add: analyzeContour_confidence)
  then show ?thesis
    unfolding detectShapes_result [OF assms]
    by (intro list_all2_map_same)
qed

theorem confidence_formula_witness:
  "confidence (analyzeContour demoBlob) =
     min 1 ((case shape_type (analyzeContour demoBlob) of Triangle \<Rightarrow> 0.9 | Rectangle \<Rightarrow> 0.9
              | Pentagon \<Rightarrow> 0.85 | Circle \<Rightarrow> 0.95 | Star \<Rightarrow> 0.8)
            * (0.8 + 0.2 * min 1 (25 / 500)))
   \<and> 0 \<le> confidence (analyzeContour demoBlob) \<and> confidence (analyzeContour demoBlob) \<le> 1"
  using confidence_formula [OF demo_detect]
  unfolding demo_sourceBlobs
  by (simp (no_asm_use) only: DetectionResult.simps list_all2_Cons list_all2_Nil demo_length
        of_nat_numeral simp_thms)

text \<open>
  Claim C10. Every shape that \<open>detectShapes\<close> returns has a confidence in
  [0.64, 0.95]: the outer \<open>min(1, \<dots>)\<close> never binds, so the confidence is the product
  \<open>base * (0.8 + 0.2 * sizeFactor)\<close> itself, and it is never 1.
\<close>

theorem confidence_tight_bounds:
  assumes "detectShapes data width height = Inr result"
  shows "list_all2
           (\<lambda>s contour.
              confidence s = baseScore (shape_type s)
                               * (0.8 + 0.2 * min 1 (real (length contour) / 500))
              \<and> 0.64 \<le> confidence s \<and> confidence s \<le> 0.95 \<and> confidence s \<noteq> 1)
           (shapes result) (sourceBlobs data width height)"
proof -
  have "confidence (analyzeContour c) =
          baseScore (shape_type (analyzeContour c)) * (0.8 + 0.2 * min 1 (real (length c) / 500))
        \<and> 0.64 \<le> confidence (analyzeContour c) \<and> confidence (analyzeContour c) \<le> 0.95
        \<and> confidence (analyzeContour c) \<noteq> 1" for c
    using computeConfidence_unclamped [of "shape_type (analyzeContour c)" "rdpSimplify c 3" c]
      computeConfidence_bounds [of "shape_type (analyzeContour c)" "rdpSimplify c 3" c]
    by (simp add: analyzeContour_confidence)
  then show ?thesis
    unfolding detectShapes_result [OF assms]
    by (intro list_all2_map_same)
qed

theorem confidence_tight_bounds_witness:
  "confidence (analyzeContour demoBlob) =
     baseScore (shape_type (analyzeContour demoBlob)) * (0.8 + 0.2 * min 1 (25 / 500))
   \<and> 0.64 \<le> confidence (analyzeContour demoBlob)
   \<and> confidence (analyzeContour demoBlob) \<le> 0.95
   \<and> confidence (analyzeContour demoBlob) \<noteq> 1"
  using confidence_tight_bounds [OF demo_detect]
  unfolding demo_sourceBlobs
  by (simp (no_asm_use) only: DetectionResult.simps list_all2_Cons list_all2_Nil demo_length
        of_nat_numeral simp_thms)

section \<open>Polygon simplification\<close>

lemma hypot_axis: "hypot a 0 = \<bar>a\<bar>"
  by (simp add: hypot_def)

lemma rdpSimplify_short: "length points < 3 \<Longrightarrow> rdpSimplify points tolerance = points"
  by (simp add: rdpSimplify.simps)

lemma rdpScan_triangle:
  "rdpScan [\<lparr>px = 0, py = 0\<rparr>, \<lparr>px = 10, py = 10\<rparr>, \<lparr>px = 20, py = 0\<rparr>]
     \<lparr>px = 0, py = 0\<rparr> \<lparr>px = 20, py = 0\<rparr> = (1, 10)"
  by (simp add: rdpScan_def rdpStep_def perpendicularDistance_def hypot_axis Let_def)

text \<open>
  Claim C6 as stated fails: the simplified polygon need not be a strict subset of the
  input. For the three points (0,0), (10,10), (20,0) the middle point lies at distance 10
  from the segment between the other two, and \<open>rdpSimplify\<close> with tolerance 3 returns
  all three points.
\<close>

theorem rdp_keeps_all_counterexample:
  "rdpSimplify [\<lparr>px = 0, py = 0\<rparr>, \<lparr>px = 10, py = 10\<rparr>, \<lparr>px = 20, py = 0\<rparr>] 3
     = [\<lparr>px = 0, py = 0\<rparr>, \<lparr>px = 10, py = 10\<rparr>, \<lparr>px = 20, py = 0\<rparr>]
   \<and> \<not> set (rdpSimplify [\<lparr>px = 0, py = 0\<rparr>, \<lparr>px = 10, py = 10\<rparr>, \<lparr>px = 20, py = 0\<rparr>] 3)
         \<subset> set [\<lparr>px = 0, py = 0\<rparr>, \<lparr>px = 10, py = 10\<rparr>, \<lparr>px = (20::int), py = 0\<rparr>]"
proof -
  have "rdpSimplify [\<lparr>px = 0, py = 0\<rparr>, \<lparr>px = 10, py = 10\<rparr>, \<lparr>px = 20, py = 0\<rparr>] 3
     = [\<lparr>px = 0, py = 0\<rparr>, \<lparr>px = 10, py = 10\<rparr>, \<lparr>px = 20, py = 0\<rparr>]"
    by (subst rdpSimplify.simps) (simp add: rdpScan_triangle rdpSimplify_short)
  then show ?thesis by simp
qed

text \<open>The maximum kept by the scan is 0 or the distance of an intermediate point.\<close>

lemma rdpScan_fold_max:
  "snd (fold (rdpStep points first last') is st) = snd st
   \<or> (\<exists>i \<in> set is. snd (fold (rdpStep points first last') is st)
                       = perpendicularDistance (points ! i) first last')"
proof (induction "is" arbitrary: st)
  case Nil
  show ?case by simp
next
  case (Cons i "is")
  have step: "snd (rdpStep points first last' i st) = snd st
              \<or> snd (rdpStep points first last' i st)
                  = perpendicularDistance (points ! i) first last'"
    by (simp add: rdpStep_def Let_def)
  from Cons.IH [of "rdpStep points first last' i st"] step show ?case
    by auto
qed

lemma rdpScan_within:
  assumes "0 \<le> tolerance"
    and "\<forall>i. 1 \<le> i \<and> i < length points - 1
           \<longrightarrow> perpendicularDistance (points ! i) first last' \<le> tolerance"
  shows "snd (rdpScan points first last') \<le> tolerance"
  using rdpScan_fold_max [of points first last' "[1..<length points - 1]" "(-1, 0)"] assms
  by (auto simp add: rdpScan_def)

lemma rdpSimplify_collapse:
  assumes "3 \<le> length points" and "snd (rdpScan points (points ! 0) (points ! (length points - 1))) \<le> tolerance"
  shows "rdpSimplify points tolerance = [points ! 0, points ! (length points - 1)]"
  using assms by (subst rdpSimplify.simps) (simp add: Let_def)

lemma rdpSimplify_shape:
  "2 \<le> length points \<Longrightarrow>
     2 \<le> length (rdpSimplify points tolerance)
     \<and> hd (rdpSimplify points tolerance) = hd points
     \<and> last (rdpSimplify points tolerance) = last points
     \<and> subseq (rdpSimplify points tolerance) points"
proof (induction points tolerance rule: rdpSimplify.induct)
  case (1 points tolerance)
  show ?case
  proof (cases "length points < 3")
    case True
    with "1.prems" show ?thesis by (simp add: rdpSimplify_short)
  next
    case long: False
    define first where "first = points ! 0"
    define last' where "last' = points ! (length points - 1)"
    define scan where "scan = rdpScan points first last'"
    define index where "index = fst scan"
    define maxDist where "maxDist = snd scan"
    have ne: "points \<noteq> []"
      using long by auto
    have ends: "first = hd points" "last' = last points"
      using ne by (simp_all add: first_def last'_def hd_conv_nth last_conv_nth)
    show ?thesis
    proof (cases "maxDist > tolerance \<and> index \<noteq> -1")
      case False
      then have "rdpSimplify points tolerance = [first, last']"
        using long
        by (subst rdpSimplify.simps)
           (auto simp add: Let_def first_def last'_def scan_def index_def maxDist_def)
      moreover have "subseq [hd points, last points] points"
      proof -
        obtain a rest where p: "points = a # rest" and r: "rest \<noteq> []"
          using long by (cases points) fastforce+
        have "last points \<in> set rest" using p r by simp
        then have "subseq [last points] rest" by (simp add: subseq_singleton_left)
        then show ?thesis using p by simp
      qed
      ultimately show ?thesis by (simp add: ends)
    next
      case split: True
      have range: "1 \<le> index \<and> index < int (length points) - 1"
        using rdpScan_index [of points first last' index maxDist] split
        by (simp add: scan_def index_def maxDist_def)
      define i where "i = nat index"
      have i: "1 \<le> i" "i < length points - 1" "nat (index + 1) = Suc i"
        using range by (auto simp add: i_def)
      define left where "left = rdpSimplify (take (Suc i) points) tolerance"
      define right where "right = rdpSimplify (drop i points) tolerance"
      have res: "rdpSimplify points tolerance = butlast left @ right"
        using long split i(3)
        by (subst rdpSimplify.simps)
           (simp add: Let_def first_def last'_def scan_def index_def maxDist_def
              left_def right_def i_def)
      have L: "2 \<le> length left \<and> hd left = hd (take (Suc i) points)
               \<and> last left = last (take (Suc i) points) \<and> subseq left (take (Suc i) points)"
        unfolding left_def i(3) [symmetric]
        using "1.IH"(1) [OF long first_def last'_def scan_def index_def maxDist_def split] i
        by (simp add: i(3))
      have R: "2 \<le> length right \<and> hd right = hd (drop i points)
               \<and> last right = last (drop i points) \<and> subseq right (drop i points)"
        unfolding right_def i_def
        using "1.IH"(2) [OF long first_def last'_def scan_def index_def maxDist_def split refl] i
        by (simp add: i_def)
      have takeS: "take (Suc i) points = take i points @ [points ! i]"
        using i by (simp add: take_Suc_conv_app_nth)
      have lastL: "last left = points ! i"
        using L by (simp add: takeS)
      have leftS: "left = butlast left @ [points ! i]"
        using L lastL by (metis append_butlast_last_id length_0_conv not_numeral_le_zero)
      have "subseq (butlast left @ [points ! i]) (take i points @ [points ! i])"
        using L leftS takeS by simp
      then have sub1: "subseq (butlast left) (take i points)"
        by (simp only: subseq_append)
      have sub: "subseq (butlast left @ right) (take i points @ drop i points)"
        using sub1 R by (intro list_emb_append_mono) simp_all
      have bl: "butlast left \<noteq> []" using L by (cases left rule: rev_cases) auto
      have hdL: "hd (butlast left) = hd left"
        using L bl by (cases left) (auto split: if_splits)
      have rne: "right \<noteq> []" using R by auto
      have "hd (butlast left @ right) = hd points"
        using bl hdL L i by simp
      moreover have "last (butlast left @ right) = last points"
        using rne R i by (simp add: last_drop)
      moreover have "2 \<le> length (butlast left @ right)"
        using L R by auto
      ultimately show ?thesis using sub by (simp add: res)
    qed
  qed
qed


lemma perpendicularDistance_nonneg: "0 \<le> perpendicularDistance p a b"
  by (simp add: perpendicularDistance_def hypot_def Let_def)

text \<open>
  Claim C6, as amended. For every point sequence of at least 3 points and every
  tolerance, the polygon returned by \<open>rdpSimplify\<close> is a subsequence of the input (its
  points in their order, possibly all of them), has at least 2 points, starts with the
  first input point and ends with the last; and when no intermediate point lies farther
  than the tolerance from the segment between the first and the last point, the result is
  exactly these two endpoints.
\<close>

theorem rdpSimplify_subsequence:
  assumes "3 \<le> length points"
  shows "subseq (rdpSimplify points tolerance) points
         \<and> set (rdpSimplify points tolerance) \<subseteq> set points
         \<and> 2 \<le> length (rdpSimplify points tolerance)
         \<and> hd (rdpSimplify points tolerance) = points ! 0
         \<and> last (rdpSimplify points tolerance) = points ! (length points - 1)
         \<and> ((\<forall>i. 1 \<le> i \<and> i < length points - 1 \<longrightarrow>
                 perpendicularDistance (points ! i) (points ! 0) (points ! (length points - 1))
                   \<le> tolerance)
              \<longrightarrow> rdpSimplify points tolerance = [points ! 0, points ! (length points - 1)])"
proof -
  have ne: "points \<noteq> []" using assms by auto
  have shape: "2 \<le> length (rdpSimplify points tolerance)
     \<and> hd (rdpSimplify points tolerance) = hd points
     \<and> last (rdpSimplify points tolerance) = last points
     \<and> subseq (rdpSimplify points tolerance) points"
    using assms by (intro rdpSimplify_shape) simp
  then have "set (rdpSimplify points tolerance) \<subseteq> set points"
    by (auto dest: list_emb_set)
  moreover have "rdpSimplify points tolerance = [points ! 0, points ! (length points - 1)]"
    if within: "\<forall>i. 1 \<le> i \<and> i < length points - 1 \<longrightarrow>
                 perpendicularDistance (points ! i) (points ! 0) (points ! (length points - 1))
                   \<le> tolerance"
  proof -
    have "perpendicularDistance (points ! 1) (points ! 0) (points ! (length points - 1))
            \<le> tolerance"
      using within assms by simp
    then have "0 \<le> tolerance"
      using perpendicularDistance_nonneg
              [of "points ! 1" "points ! 0" "points ! (length points - 1)"]
      by linarith
    then show ?thesis
      using rdpScan_within [OF _ within] assms by (intro rdpSimplify_collapse) simp_all
  qed
  ultimately show ?thesis
    using shape ne by (simp add: hd_conv_nth last_conv_nth)
qed

theorem rdpSimplify_subsequence_witness:
  "rdpSimplify [\<lparr>px = 0, py = 0\<rparr>, \<lparr>px = 1, py = 0\<rparr>, \<lparr>px = 2, py = 0\<rparr>] 3
     = [\<lparr>px = 0, py = 0\<rparr>, \<lparr>px = 2, py = 0\<rparr>]"
proof -
  let ?line = "[\<lparr>px = 0, py = 0\<rparr>, \<lparr>px = 1, py = 0\<rparr>, \<lparr>px = (2::int), py = (0::int)\<rparr>]"
  have len: "3 \<le> length ?line" by simp
  have near: "\<forall>i. 1 \<le> i \<and> i < length ?line - 1 \<longrightarrow>
                perpendicularDistance (?line ! i) (?line ! 0) (?line ! (length ?line - 1)) \<le> 3"
  proof (intro allI impI)
    fix i :: nat
    assume "1 \<le> i \<and> i < length ?line - 1"
    then have "i = 1" by simp
    then show "perpendicularDistance (?line ! i) (?line ! 0) (?line ! (length ?line - 1)) \<le> 3"
      by (simp add: perpendicularDistance_def hypot_axis Let_def)
  qed
  from rdpSimplify_subsequence [OF len, of 3] near show ?thesis by simp
qed

section \<open>Bounding boxes\<close>

lemma fold_min_le: "fold min xs a \<le> (a::int) \<and> (\<forall>x\<in>set xs. fold min xs a \<le> x)"
proof (induction xs arbitrary: a)
  case Nil
  show ?case by simp
next
  case (Cons b xs)
  from Cons.IH [of "min b a"] show ?case by auto
qed

lemma fold_max_ge: "(a::int) \<le> fold max xs a \<and> (\<forall>x\<in>set xs. x \<le> fold max xs a)"
proof (induction xs arbitrary: a)
  case Nil
  show ?case by simp
next
  case (Cons b xs)
  from Cons.IH [of "max b a"] show ?case by auto
qed

lemma minOf_le: "x \<in> set xs \<Longrightarrow> minOf xs \<le> x"
  using fold_min_le by (cases xs) auto

lemma le_maxOf: "x \<in> set xs \<Longrightarrow> x \<le> maxOf xs"
  using fold_max_ge by (cases xs) auto

lemma analyzeContour_boundingBox:
  "boundingBox (analyzeContour contour) =
     \<lparr>bb_x = minOf (map px contour), bb_y = minOf (map py contour),
      bb_width = maxOf (map px contour) - minOf (map px contour),
      bb_height = maxOf (map py contour) - minOf (map py contour)\<rparr>"
  by (simp add: analyzeContour_def Let_def)

lemma analyzeContour_contains:
  assumes "p \<in> set contour"
  shows "bb_x (boundingBox (analyzeContour contour)) \<le> px p
       \<and> px p \<le> bb_x (boundingBox (analyzeContour contour))
                    + bb_width (boundingBox (analyzeContour contour))
       \<and> bb_y (boundingBox (analyzeContour contour)) \<le> py p
       \<and> py p \<le> bb_y (boundingBox (analyzeContour contour))
                    + bb_height (boundingBox (analyzeContour contour))"
proof -
  have "px p \<in> set (map px contour)" "py p \<in> set (map py contour)"
    using assms by simp_all
  then show ?thesis
    using minOf_le [of "px p" "map px contour"] le_maxOf [of "px p" "map px contour"]
      minOf_le [of "py p" "map py contour"] le_maxOf [of "py p" "map py contour"]
    by (simp add: analyzeContour_boundingBox)
qed

text \<open>
  Claim C7. For every shape that \<open>detectShapes\<close> returns, every point \<open>(px, py)\<close> of
  its source blob satisfies \<open>x \<le> px \<le> x + width\<close> and \<open>y \<le> py \<le> y + height\<close>, where
  \<open>x\<close>, \<open>y\<close>, \<open>width\<close> and \<open>height\<close> are the fields of the shape's bounding box.
\<close>

theorem boundingBox_contains_blob:
  assumes "detectShapes data width height = Inr result"
  shows "list_all2
           (\<lambda>s contour. \<forall>p \<in> set contour.
              bb_x (boundingBox s) \<le> px p
              \<and> px p \<le> bb_x (boundingBox s) + bb_width (boundingBox s)
              \<and> bb_y (boundingBox s) \<le> py p
              \<and> py p \<le> bb_y (boundingBox s) + bb_height (boundingBox s))
           (shapes result) (sourceBlobs data width height)"
  unfolding detectShapes_result [OF assms]
  by (intro list_all2_map_same ballI analyzeContour_contains)

lemma demo_boundingBox:
  "boundingBox (analyzeContour demoBlob) = \<lparr>bb_x = 1, bb_y = 1, bb_width = 4, bb_height = 4\<rparr>"
  by (simp add: analyzeContour_boundingBox demoBlob_def)

theorem boundingBox_contains_blob_witness:
  "list_all (\<lambda>p. 1 \<le> px p \<and> px p \<le> 1 + 4 \<and> 1 \<le> py p \<and> py p \<le> 1 + 4) demoBlob"
  using boundingBox_contains_blob [OF demo_detect]
  unfolding demo_sourceBlobs list_all_iff
  by (simp (no_asm_use) only: DetectionResult.simps list_all2_Cons list_all2_Nil simp_thms
        demo_boundingBox BoundingBox.simps)

section \<open>Inputs outside the preconditions\<close>

lemma set_range0: "set (range0 n) = {0..<n}"
proof -
  have "int ` {0..<nat n} = {0..<n}"
  proof (intro set_eqI iffI)
    fix x assume "x \<in> {0..<n}"
    then have "x = int (nat x)" "nat x \<in> {0..<nat n}" by auto
    then show "x \<in> int ` {0..<nat n}" by (rule image_eqI)
  qed auto
  then show ?thesis by (simp add: range0_def)
qed

lemma set_scanOrder: "set (scanOrder width height) = {(x, y). inBounds width height x y}"
  by (auto simp add: scanOrder_def set_range0 inBounds_def)

lemma scanOrder_empty: "width \<le> 0 \<or> height \<le> 0 \<Longrightarrow> scanOrder width height = []"
  by (auto simp add: scanOrder_def range0_def)

lemma idx_less:
  assumes "inBounds width height x y"
  shows "idx width x y < nat (width * height)"
proof -
  from assms have b: "0 \<le> x" "0 \<le> y" "x < width" "y < height"
    by (simp_all add: inBounds_def)
  then have "y * width \<le> (height - 1) * width"
    by (intro mult_right_mono) simp_all
  then have "y * width + x < height * width"
    using b by (simp add: algebra_simps)
  moreover have "0 \<le> y * width" using b by simp
  ultimately show ?thesis using b by (simp add: idx_def mult.commute)
qed

lemma fold_id: "(\<And>x s. x \<in> set xs \<Longrightarrow> f x s = s) \<Longrightarrow> fold f xs s = s"
  by (induction xs) simp_all

lemma scanPixel_background:
  assumes "\<forall>i < length binary. binary ! i \<noteq> 1"
  shows "scanPixel width height binary pos st = st"
proof -
  have "\<not> (idx width (fst pos) (snd pos) < length binary
            \<and> binary ! idx width (fst pos) (snd pos) = 1
            \<and> idx width (fst pos) (snd pos) < length (fst st)
            \<and> fst st ! idx width (fst pos) (snd pos) = 0)"
    using assms by blast
  then show ?thesis
    unfolding scanPixel_def Let_def by (rule if_not_P)
qed

lemma findContours_background:
  "\<forall>i < length binary. binary ! i \<noteq> 1 \<Longrightarrow> findContours width height binary = []"
  by (simp add: findContours_def fold_id scanPixel_background)

lemma findContours_no_pixels:
  "width \<le> 0 \<or> height \<le> 0 \<Longrightarrow> findContours width height binary = []"
  by (simp add: findContours_def scanOrder_empty)

text \<open>
  Claim C2 as stated fails: \<open>detectShapes\<close> has no check of its input. Called with
  width 2, height 1 and an empty pixel buffer (0 bytes instead of 8), it raises nothing and
  returns a result with no shape.
\<close>

theorem no_validation_counterexample:
  "length ([] :: nat list) \<noteq> nat (2 * 1 * 4)
   \<and> detectShapes [] 2 1 = Inr \<lparr>shapes = [], imageWidth = 2, imageHeight = 1\<rparr>"
proof -
  have "findContours 2 1 (binarize (toGrayscale [] 2 1) 2 1) = []"
    by code_simp
  then show ?thesis
    by (simp add: detectShapes_def detectGray_def)
qed

lemma concat_blocks_length:
  "\<forall>j. length (f j) = 4 \<Longrightarrow> length (concat (map f [0..<n])) = n * 4"
  by (induction n) simp_all

lemma concat_blocks_nth:
  assumes len: "\<forall>j. length (f j) = 4"
  shows "i < n \<Longrightarrow> k < 4 \<Longrightarrow> concat (map f [0..<n]) ! (i * 4 + k) = f i ! k"
proof (induction n)
  case 0
  then show ?case by simp
next
  case (Suc n)
  have l: "length (concat (map f [0..<n])) = n * 4"
    by (rule concat_blocks_length [OF len])
  show ?case
  proof (cases "i < n")
    case True
    then have "i * 4 + k < n * 4" using Suc.prems(2) by simp
    then show ?thesis using Suc.IH [OF True Suc.prems(2)] l by (simp add: nth_append)
  next
    case False
    then have "i = n" using Suc.prems(1) by simp
    then show ?thesis using l by (simp add: nth_append)
  qed
qed

lemma completeBuffer_length:
  "length (completeBuffer data width height) = nat (width * height) * 4"
  unfolding completeBuffer_def by (rule concat_blocks_length) simp

lemma luminance_black: "luminance [0, 0, 0, 255] 0 = 0"
  by (simp add: luminance_def)

lemma luminance_completeBuffer:
  assumes "i < nat (width * height)"
  shows "luminance (completeBuffer data width height) i = luminance data i"
proof -
  let ?f = "\<lambda>i. if i * 4 + 2 < length data
                 then [data ! (i * 4), data ! (i * 4 + 1), data ! (i * 4 + 2), 255]
                 else [0, 0, 0, 255]"
  have len: "\<forall>j. length (?f j) = 4" by simp
  have ch: "completeBuffer data width height ! (i * 4 + k) = ?f i ! k" if "k < 4" for k
    unfolding completeBuffer_def by (rule concat_blocks_nth [OF len assms that])
  have c0: "completeBuffer data width height ! (i * 4) = ?f i ! 0"
    using ch [of 0] by simp
  have c1: "completeBuffer data width height ! (i * 4 + 1) = ?f i ! 1"
    using ch [of 1] by simp
  have c2: "completeBuffer data width height ! (i * 4 + 2) = ?f i ! 2"
    using ch [of 2] by simp
  have inside: "i * 4 + 2 < length (completeBuffer data width height)"
    using assms by (simp add: completeBuffer_length)
  show ?thesis
  proof (cases "i * 4 + 2 < length data")
    case True
    then show ?thesis
      using inside unfolding luminance_def c0 c1 c2 by simp
  next
    case False
    then show ?thesis
      using inside unfolding luminance_def c0 c1 c2 by simp
  qed
qed

lemma toGrayscale_completeBuffer:
  "toGrayscale (completeBuffer data width height) width height = toGrayscale data width height"
  unfolding toGrayscale_def
  by (rule map_cong [OF refl]) (simp add: luminance_completeBuffer)

text \<open>
  Claim C2, as amended. \<open>detectShapes\<close> validates nothing itself. A call with a negative
  \<open>width * height\<close> fails at once, before any indexing, with the \<open>RangeError\<close> of the
  first array allocation. A call with width or height zero returns a result with no
  shape. A pixel buffer whose length differs from \<open>width * height * 4\<close> goes unnoticed:
  the call behaves exactly as on the well-formed buffer of \<open>width * height\<close> pixels in
  which every pixel whose three colour channels cannot all be read is black.
\<close>

theorem detectShapes_unvalidated:
  "(width * height < 0 \<longrightarrow> detectShapes data width height = Inl RangeError)
   \<and> (width = 0 \<or> height = 0 \<longrightarrow>
        detectShapes data width height
          = Inr \<lparr>shapes = [], imageWidth = width, imageHeight = height\<rparr>)
   \<and> (0 \<le> width * height \<longrightarrow>
        length (completeBuffer data width height) = nat (width * height * 4))
   \<and> detectShapes data width height
       = detectShapes (completeBuffer data width height) width height"
proof (intro conjI impI)
  assume "width * height < 0"
  then show "detectShapes data width height = Inl RangeError"
    by (simp add: detectShapes_def)
next
  assume zero: "width = 0 \<or> height = 0"
  then have "\<not> width * height < 0" by auto
  moreover have "findContours width height binary = []" for binary
    using zero by (intro findContours_no_pixels) auto
  ultimately show "detectShapes data width height
          = Inr \<lparr>shapes = [], imageWidth = width, imageHeight = height\<rparr>"
    by (simp add: detectShapes_def detectGray_def)
next
  assume "0 \<le> width * height"
  then have "nat (width * height * 4) = nat (width * height) * 4"
    by (simp add: nat_mult_distrib)
  then show "length (completeBuffer data width height) = nat (width * height * 4)"
    by (simp add: completeBuffer_length)
next
  show "detectShapes data width height
          = detectShapes (completeBuffer data width height) width height"
    by (simp add: detectShapes_def toGrayscale_completeBuffer)
qed

lemma completeBuffer_example:
  "completeBuffer [10, 20, 30, 255, 40] 2 1 = [10, 20, 30, 255, 0, 0, 0, 255]"
  by code_simp

theorem detectShapes_unvalidated_witness:
  "detectShapes [] (-1) 1 = Inl RangeError
   \<and> detectShapes [10, 20] 0 3 = Inr \<lparr>shapes = [], imageWidth = 0, imageHeight = 3\<rparr>
   \<and> length [10, 20, 30, 255, 0, 0, 0, 255 :: nat] = nat (2 * 1 * 4)
   \<and> detectShapes [10, 20, 30, 255, 40] 2 1
       = detectShapes [10, 20, 30, 255, 0, 0, 0, 255] 2 1"
  using detectShapes_unvalidated [of "-1" 1 "[]"] detectShapes_unvalidated [of 0 3 "[10, 20]"]
    detectShapes_unvalidated [of 2 1 "[10, 20, 30, 255, 40]"]
  by (simp add: completeBuffer_example)

section \<open>Polarity, threshold and uniform images\<close>

lemma uniformBorderD:
  assumes "uniformBorder gray width height b" and "inBounds width height x y"
    and "x = 0 \<or> x = width - 1 \<or> y = 0 \<or> y = height - 1"
  shows "gray ! idx width x y = b"
proof -
  have "(x, y) \<in> set (scanOrder width height)"
    using assms(2) by (simp add: set_scanOrder)
  with assms(1,3) show ?thesis
    unfolding uniformBorder_def list_all_iff by fastforce
qed

lemma grayAt_idx:
  assumes "inBounds width height x y" and "length gray = nat (width * height)"
  shows "grayAt gray (y * width + x) = Some (gray ! idx width x y)"
proof -
  have "idx width x y < length gray"
    using idx_less [OF assms(1)] assms(2) by simp
  moreover have "0 \<le> y * width + x"
    using assms(1) by (simp add: inBounds_def)
  ultimately show ?thesis by (simp add: grayAt_def idx_def)
qed

lemma fold_borderRows:
  assumes "\<forall>x \<in> set xs. grayAt gray x = Some b
                         \<and> grayAt gray ((height - 1) * width + x) = Some b"
  shows "fold (borderRows gray width height) xs (Some s, c)
           = (Some (s + 2 * b * length xs), c + 2 * length xs)"
  using assms
proof (induction xs arbitrary: s c)
  case Nil
  show ?case by simp
next
  case (Cons x xs)
  have "borderRows gray width height x (Some s, c) = (Some (s + 2 * b), c + 2)"
    using Cons.prems by (simp add: borderRows_def addBorder_def)
  then show ?case
    using Cons.IH [of "s + 2 * b" "c + 2"] Cons.prems by simp
qed

lemma fold_borderCols:
  assumes "\<forall>y \<in> set ys. grayAt gray (y * width) = Some b
                         \<and> grayAt gray (y * width + (width - 1)) = Some b"
  shows "fold (borderCols gray width height) ys (Some s, c)
           = (Some (s + 2 * b * length ys), c + 2 * length ys)"
  using assms
proof (induction ys arbitrary: s c)
  case Nil
  show ?case by simp
next
  case (Cons y ys)
  have "borderCols gray width height y (Some s, c) = (Some (s + 2 * b), c + 2)"
    using Cons.prems by (simp add: borderCols_def addBorder_def)
  then show ?case
    using Cons.IH [of "s + 2 * b" "c + 2"] Cons.prems by simp
qed

lemma borderStats_uniform:
  assumes pos: "0 < width" "0 < height" and len: "length gray = nat (width * height)"
    and border: "uniformBorder gray width height b"
  shows "borderStats gray width height
           = (Some (2 * b * nat width + 2 * b * nat height), 2 * nat width + 2 * nat height)"
proof -
  have rows: "\<forall>x \<in> set (range0 width). grayAt gray x = Some b
                \<and> grayAt gray ((height - 1) * width + x) = Some b"
  proof
    fix x assume "x \<in> set (range0 width)"
    then have x: "0 \<le> x" "x < width" by (simp_all add: set_range0)
    have top: "inBounds width height x 0" and bot: "inBounds width height x (height - 1)"
      using x pos by (simp_all add: inBounds_def)
    show "grayAt gray x = Some b \<and> grayAt gray ((height - 1) * width + x) = Some b"
      using grayAt_idx [OF top len] grayAt_idx [OF bot len]
        uniformBorderD [OF border top] uniformBorderD [OF border bot]
      by simp
  qed
  have cols: "\<forall>y \<in> set (range0 height). grayAt gray (y * width) = Some b
                \<and> grayAt gray (y * width + (width - 1)) = Some b"
  proof
    fix y assume "y \<in> set (range0 height)"
    then have y: "0 \<le> y" "y < height" by (simp_all add: set_range0)
    have left: "inBounds width height 0 y" and right: "inBounds width height (width - 1) y"
      using y pos by (simp_all add: inBounds_def)
    show "grayAt gray (y * width) = Some b \<and> grayAt gray (y * width + (width - 1)) = Some b"
      using grayAt_idx [OF left len] grayAt_idx [OF right len]
        uniformBorderD [OF border left] uniformBorderD [OF border right]
      by simp
  qed
  show ?thesis
    unfolding borderStats_def fold_borderRows [OF rows] fold_borderCols [OF cols]
    by (simp add: range0_def)
qed

lemma image_nonempty:
  assumes "0 < width" "0 < height" "length gray = nat (width * height)"
  shows "gray \<noteq> []"
proof -
  have "0 < width * height" using assms(1,2) by (rule mult_pos_pos)
  then show ?thesis using assms(3) by auto
qed

lemma bgLevel_uniform:
  assumes "0 < width" "0 < height" "length gray = nat (width * height)"
    and "uniformBorder gray width height b"
  shows "bgLevel gray width height = Some (real b)"
proof -
  define n where "n = 2 * nat width + 2 * nat height"
  have n: "n \<noteq> 0" using assms(1) by (simp add: n_def)
  have "2 * b * nat width + 2 * b * nat height = b * n"
    by (simp add: n_def algebra_simps)
  then have stats: "borderStats gray width height = (Some (b * n), n)"
    using borderStats_uniform [OF assms] by (simp add: n_def)
  show ?thesis
    using n by (simp add: bgLevel_def stats Let_def)
qed

lemma foldl_plus_sum_list: "foldl (\<lambda>a b. a + b) a xs = a + sum_list (xs :: nat list)"
  by (induction xs arbitrary: a) simp_all

lemma avgLevel_sum:
  "gray \<noteq> [] \<Longrightarrow> avgLevel gray = Some (real (sum_list gray) / real (length gray))"
  by (simp add: avgLevel_def foldl_plus_sum_list)

lemma sum_list_bounded:
  "\<forall>g \<in> set xs. g \<le> (k::nat) \<Longrightarrow> sum_list xs \<le> k * length xs"
  by (induction xs) auto

lemma sum_list_maximal:
  "\<forall>g \<in> set xs. g \<le> (k::nat) \<Longrightarrow> sum_list xs = k * length xs \<Longrightarrow> \<forall>g \<in> set xs. g = k"
proof (induction xs)
  case Nil
  show ?case by simp
next
  case (Cons a xs)
  have "sum_list xs \<le> k * length xs" using Cons.prems(1) by (intro sum_list_bounded) simp
  moreover have "a \<le> k" using Cons.prems(1) by simp
  ultimately have "a = k \<and> sum_list xs = k * length xs"
    using Cons.prems(2) by simp
  then show ?case using Cons by simp
qed

text \<open>The mask of an image whose border is uniformly black: every pixel brighter than the
  border is foreground.\<close>

lemma binarize_black_border:
  assumes "0 < width" "0 < height" "length gray = nat (width * height)"
    and "uniformBorder gray width height 0"
  shows "binarize gray width height = map (\<lambda>g. if 0 < g then 1 else 0) gray"
proof -
  have ne: "gray \<noteq> []" using assms(1-3) image_nonempty by blast
  have bg: "bgLevel gray width height = Some 0"
    using bgLevel_uniform [OF assms] by simp
  have "0 \<le> real (sum_list gray) / real (length gray)"
    by simp
  then have dark: "\<not> darkShapes gray width height"
    by (simp add: darkShapes_def avgLevel_sum [OF ne] bg not_less)
  have thr: "threshold gray width height = Some 0"
    by (simp add: threshold_def bg)
  show ?thesis
    by (simp add: binarize_def dark thr binarizePixel_def)
qed

text \<open>The mask of an image whose border is uniformly white (255), with byte values: the
  pixels at most 229 are foreground.\<close>

lemma binarize_white_border:
  assumes "0 < width" "0 < height" "length gray = nat (width * height)"
    and "uniformBorder gray width height 255" and bytes: "\<forall>g \<in> set gray. g \<le> 255"
  shows "binarize gray width height = map (\<lambda>g. if g \<le> 229 then 1 else 0) gray"
proof -
  have ne: "gray \<noteq> []" using assms(1-3) image_nonempty by blast
  have bg: "bgLevel gray width height = Some 255"
    using bgLevel_uniform [OF assms(1-4)] by simp
  show ?thesis
  proof (cases "darkShapes gray width height")
    case True
    then have thr: "threshold gray width height = Some (255 * 0.9)"
      by (simp add: threshold_def bg)
    have "binarizePixel True (Some (255 * 0.9)) g = (if g \<le> 229 then 1 else 0)" for g
    proof -
      have "real g < 2295 / 10 \<longleftrightarrow> g \<le> 229"
      proof
        assume "real g < 2295 / 10"
        then have "real g < real 230" by simp
        then show "g \<le> 229" unfolding of_nat_less_iff by simp
      next
        assume "g \<le> 229"
        then have "real g \<le> real 229" unfolding of_nat_le_iff .
        then show "real g < 2295 / 10" by simp
      qed
      then show ?thesis by (simp add: binarizePixel_def)
    qed
    then show ?thesis by (simp add: binarize_def True thr)
  next
    case False
    then have "\<not> real (sum_list gray) / real (length gray) < 255"
      by (simp add: darkShapes_def avgLevel_sum [OF ne] bg)
    then have "255 * real (length gray) \<le> real (sum_list gray)"
      using ne by (simp add: field_simps)
    then have "real (255 * length gray) \<le> real (sum_list gray)" by simp
    then have "255 * length gray \<le> sum_list gray" unfolding of_nat_le_iff .
    then have "sum_list gray = 255 * length gray"
      using sum_list_bounded [OF bytes] by simp
    then have all: "\<forall>g \<in> set gray. g = 255"
      using sum_list_maximal [OF bytes] by simp
    have thr: "threshold gray width height = Some (255 * 1.1)"
      using False by (simp add: threshold_def bg)
    have "binarizePixel False (Some (255 * 1.1)) g = (if g \<le> 229 then 1 else 0)"
      if "g \<in> set gray" for g
    proof -
      have "g = 255" using all that by simp
      then show ?thesis by (simp add: binarizePixel_def)
    qed
    then show ?thesis by (simp add: binarize_def False thr)
  qed
qed


lemma uniformBorder_replicate:
  "uniformBorder (replicate (nat (width * height)) g) width height g"
  unfolding uniformBorder_def list_all_iff
  using idx_less by (auto simp add: set_scanOrder)

lemma uniformBorder_map:
  assumes "uniformBorder gray width height b" and "length gray = nat (width * height)"
  shows "uniformBorder (map f gray) width height (f b)"
  using assms idx_less [of width height]
  unfolding uniformBorder_def list_all_iff
  by (auto simp add: set_scanOrder)

lemma binarize_uniform:
  assumes "0 < width" "0 < height"
  shows "binarize (replicate (nat (width * height)) g) width height
           = replicate (nat (width * height)) 0"
proof -
  let ?gray = "replicate (nat (width * height)) g"
  have len: "length ?gray = nat (width * height)" by simp
  have ne: "?gray \<noteq> []" using image_nonempty [OF assms len] .
  then have n: "nat (width * height) \<noteq> 0" by simp
  have bg: "bgLevel ?gray width height = Some (real g)"
    using bgLevel_uniform [OF assms len uniformBorder_replicate] .
  have "real (sum_list (replicate k g)) / real (length (replicate k g)) = real g"
    if "k \<noteq> 0" for k
    using that by (simp add: sum_list_replicate)
  from this [OF n] have avg: "avgLevel ?gray = Some (real g)"
    unfolding avgLevel_sum [OF ne] by simp
  have dark: "\<not> darkShapes ?gray width height"
    by (simp add: darkShapes_def avg bg)
  have thr: "threshold ?gray width height = Some (real g * 1.1)"
    by (simp add: threshold_def bg dark)
  have "\<not> real g > real g * 1.1" by simp
  then have "binarizePixel False (Some (real g * 1.1)) g = 0"
    unfolding binarizePixel_def by simp
  then show ?thesis by (simp add: binarize_def dark thr)
qed

lemma toGrayscale_uniform:
  assumes "length data = nat (width * height * 4)"
    and "\<forall>i < nat (width * height).
           data ! (i * 4) = r \<and> data ! (i * 4 + 1) = g \<and> data ! (i * 4 + 2) = b"
  shows "\<exists>v. toGrayscale data width height = replicate (nat (width * height)) v"
proof -
  define v where "v = min 255 (nat \<lfloor>0.299 * real r + 0.587 * real g + 0.114 * real b + 1 / 2\<rfloor>)"
  have "luminance data i = v" if "i < nat (width * height)" for i
  proof -
    have "nat (width * height * 4) = nat (width * height) * 4"
      by (simp add: nat_mult_distrib)
    then have "i * 4 + 2 < length data" using that assms(1) by simp
    then show ?thesis using assms(2) that by (simp add: luminance_def v_def)
  qed
  then have "map (luminance data) [0..<nat (width * height)]
               = map (\<lambda>i. v) [0..<nat (width * height)]"
    by (intro map_cong) simp_all
  then show ?thesis by (auto simp add: toGrayscale_def map_replicate_const)
qed

text \<open>
  Claim C8. For every uniform image (positive width and height, a buffer of
  \<open>width * height * 4\<close> bytes in which every pixel has the same red, green and blue
  values), \<open>detectShapes\<close> completes without error and returns no shape.
\<close>

theorem uniform_image_no_shapes:
  assumes "0 < width" "0 < height" "length data = nat (width * height * 4)"
    and "\<forall>i < nat (width * height).
           data ! (i * 4) = r \<and> data ! (i * 4 + 1) = g \<and> data ! (i * 4 + 2) = b"
  shows "detectShapes data width height
           = Inr \<lparr>shapes = [], imageWidth = width, imageHeight = height\<rparr>"
proof -
  obtain v where gray: "toGrayscale data width height = replicate (nat (width * height)) v"
    using toGrayscale_uniform [OF assms(3,4)] by blast
  have "0 < width * height" using assms(1,2) by (rule mult_pos_pos)
  then have "\<not> width * height < 0" by simp
  moreover have "findContours width height (replicate (nat (width * height)) 0) = []"
    by (intro findContours_background) simp
  ultimately show ?thesis
    by (simp add: detectShapes_def detectGray_def gray binarize_uniform [OF assms(1,2)])
qed

theorem uniform_image_no_shapes_witness:
  "detectShapes (replicate 10000 128) 50 50
     = Inr \<lparr>shapes = [], imageWidth = 50, imageHeight = 50\<rparr>"
proof -
  have "\<forall>i < nat (50 * 50).
          replicate 10000 (128::nat) ! (i * 4) = 128
          \<and> replicate 10000 (128::nat) ! (i * 4 + 1) = 128
          \<and> replicate 10000 (128::nat) ! (i * 4 + 2) = 128"
    by simp
  moreover have "length (replicate 10000 (128::nat)) = nat (50 * 50 * 4)"
    by simp
  ultimately show ?thesis
    using uniform_image_no_shapes [of 50 50 "replicate 10000 128" 128 128 128]
    by (simp only: simp_thms zero_less_numeral)
qed

lemma pale_inverted: "map (\<lambda>g. 255 - g) paleGray = demoGray"
  by code_simp

lemma pale_border: "uniformBorder paleGray 7 7 255"
  by code_simp

lemma pale_bytes: "\<forall>g \<in> set paleGray. g \<le> 255"
  by code_simp

lemma pale_length: "length paleGray = nat (7 * 7)"
  by code_simp

lemma pale_contours: "findContours 7 7 (binarize paleGray 7 7) = []"
proof -
  have "binarize paleGray 7 7 = map (\<lambda>g. if g \<le> 229 then 1 else 0) paleGray"
    using pale_border pale_bytes pale_length by (intro binarize_white_border) simp_all
  also have "\<dots> = replicate 49 0"
    by code_simp
  finally show ?thesis
    by (intro findContours_background) simp
qed

text \<open>
  Claim C5 as stated fails. In a 7 by 7 image with a white border (255) and a 5 by 5
  square of luminance 240, the square is brighter than 0.9 times the background and no
  shape is detected; in the inverted image (black border, square of luminance 15) the
  square is brighter than 1.1 times the background 0, and one shape is detected.
\<close>

theorem polarity_symmetry_counterexample:
  "length (shapes (detectGray paleGray 7 7)) = 0
   \<and> length (shapes (detectGray (map (\<lambda>g. 255 - g) paleGray) 7 7)) = 1"
  by (simp add: detectGray_def pale_inverted pale_contours demo_contours)

text \<open>
  Claim C5, as amended. Take an image of positive width and height whose border pixels
  all have the same grayscale value \<open>b\<close>, black (0) or white (255), and in which every
  pixel either has the value \<open>b\<close> or differs from \<open>b\<close> by at least 26 grey levels. Then
  detection on the luminance-inverted image (every grayscale value \<open>g\<close> replaced by
  \<open>255 - g\<close>) returns the same result as on the original: the same shapes, hence the same
  count and the same bounding boxes.
\<close>

theorem polarity_symmetry_clear_contrast:
  assumes "0 < width" "0 < height" "length gray = nat (width * height)"
    and b: "b = 0 \<or> b = 255"
    and border: "uniformBorder gray width height b"
    and contrast: "\<forall>g \<in> set gray. g \<le> 255 \<and> (g = b \<or> g + 26 \<le> b \<or> b + 26 \<le> g)"
  shows "detectGray (map (\<lambda>g. 255 - g) gray) width height = detectGray gray width height"
proof -
  let ?inv = "map (\<lambda>g. 255 - g) gray"
  have len': "length ?inv = nat (width * height)" using assms(3) by simp
  have border': "uniformBorder ?inv width height (255 - b)"
    using uniformBorder_map [OF border assms(3)] .
  have "binarize ?inv width height = binarize gray width height"
  proof (cases "b = 0")
    case True
    have bytes': "\<forall>g \<in> set ?inv. g \<le> 255" by simp
    have "binarize ?inv width height = map (\<lambda>g. if g \<le> 229 then 1 else 0) ?inv"
      using binarize_white_border [OF assms(1,2) len' _ bytes'] border' True by simp
    moreover have "binarize gray width height = map (\<lambda>g. if 0 < g then 1 else 0) gray"
      using binarize_black_border [OF assms(1-3)] border True by simp
    moreover have "(if 255 - g \<le> 229 then 1 else 0) = (if 0 < g then 1 else (0::nat))"
      if "g \<in> set gray" for g
      using contrast that True by auto
    ultimately show ?thesis by simp
  next
    case False
    then have white: "b = 255" using b by simp
    have bytes: "\<forall>g \<in> set gray. g \<le> 255" using contrast by simp
    have "binarize ?inv width height = map (\<lambda>g. if 0 < g then 1 else 0) ?inv"
      using binarize_black_border [OF assms(1,2) len'] border' white by simp
    moreover have "binarize gray width height = map (\<lambda>g. if g \<le> 229 then 1 else 0) gray"
      using binarize_white_border [OF assms(1-3) _ bytes] border white by simp
    moreover have "(if 0 < 255 - g then 1 else 0) = (if g \<le> 229 then 1 else (0::nat))"
      if "g \<in> set gray" for g
      using contrast that white by auto
    ultimately show ?thesis by simp
  qed
  then show ?thesis by (simp add: detectGray_def)
qed

lemma ink_border: "uniformBorder inkGray 7 7 255"
  by code_simp

lemma ink_levels: "\<forall>g \<in> set inkGray. g \<le> 255 \<and> (g = 255 \<or> g + 26 \<le> 255 \<or> 255 + 26 \<le> g)"
  by code_simp

lemma ink_length: "length inkGray = nat (7 * 7)"
  by code_simp

theorem polarity_symmetry_clear_contrast_witness:
  "detectGray (map (\<lambda>g. 255 - g) inkGray) 7 7 = detectGray inkGray 7 7"
  using polarity_symmetry_clear_contrast [of 7 7 inkGray 255] ink_border ink_levels ink_length
  by simp

section \<open>Geometry of the pixel grid and components\<close>

lemma idx_inj:
  assumes "inBounds width height x y" "inBounds width height x' y'"
    and "idx width x y = idx width x' y'"
  shows "x = x' \<and> y = y'"
proof -
  from assms(1,2) have b: "0 \<le> x" "x < width" "0 \<le> y" "0 \<le> x'" "x' < width" "0 \<le> y'"
    by (simp_all add: inBounds_def)
  then have "0 \<le> y * width + x" "0 \<le> y' * width + x'" by simp_all
  with assms(3) have eq: "y * width + x = y' * width + x'"
    by (simp add: idx_def)
  have "(y * width + x) div width = y" "(y' * width + x') div width = y'"
    using b by simp_all
  with eq have "y = y'" by simp
  with eq show ?thesis by simp
qed

lemma point_eqI: "px p = px q \<Longrightarrow> py p = py q \<Longrightarrow> p = (q :: int Point)"
  by simp

lemma pixel_inj:
  assumes "inBounds width height (px p) (py p)" "inBounds width height (px q) (py q)"
    and "idx width (px p) (py p) = idx width (px q) (py q)"
  shows "p = (q :: int Point)"
  using idx_inj [OF assms] by simp

lemma marked_update:
  assumes "inBounds width height (px q) (py q)" and "length visited = nat (width * height)"
  shows "marked width height (visited[idx width (px q) (py q) := 1])
           = insert q (marked width height visited)"
proof -
  have lt: "idx width (px q) (py q) < length visited"
    using idx_less [OF assms(1)] assms(2) by simp
  have "visited[idx width (px q) (py q) := 1] ! idx width (px p) (py p) \<noteq> 0
          \<longleftrightarrow> p = q \<or> visited ! idx width (px p) (py p) \<noteq> 0"
    if "inBounds width height (px p) (py p)" for p :: "int Point"
  proof (cases "idx width (px p) (py p) = idx width (px q) (py q)")
    case True
    then have "p = q" using pixel_inj [OF that assms(1)] by simp
    then show ?thesis using lt by simp
  next
    case False
    then have "p \<noteq> q" by auto
    then show ?thesis using False by simp
  qed
  then show ?thesis using assms(1) by (auto simp add: marked_def)
qed

lemma point_eq_iff: "p = q \<longleftrightarrow> px p = px q \<and> py p = py (q :: int Point)"
  by auto

lemma adjacent8_neighbour: "d \<in> set dirs \<Longrightarrow> adjacent8 p (neighbour p d)"
  by (auto simp add: dirs_def adjacent8_def neighbour_def point_eq_iff)

lemma adjacent8_dirs:
  assumes "adjacent8 p q"
  shows "\<exists>d \<in> set dirs. q = neighbour p d"
proof -
  define dx where "dx = px q - px p"
  define dy where "dy = py q - py p"
  have q: "q = neighbour p (dx, dy)"
    by (simp add: neighbour_def dx_def dy_def)
  have "(dx, dy) \<noteq> (0, 0)"
    using assms by (auto simp add: adjacent8_def dx_def dy_def)
  moreover have "dx \<in> {-1, 0, 1}" "dy \<in> {-1, 0, 1}"
    using assms by (auto simp add: adjacent8_def dx_def dy_def)
  ultimately have "(dx, dy) \<in> set dirs"
    by (auto simp add: dirs_def)
  with q show ?thesis by blast
qed

lemma adjacent8_sym: "adjacent8 p q \<Longrightarrow> adjacent8 q p"
  by (auto simp add: adjacent8_def)

lemma linked_sym: "sym (linked width height binary)"
  by (auto simp add: sym_def linked_def adjacent8_sym)

lemma component_refl: "p \<in> component width height binary p"
  by (simp add: component_def)

lemma component_foreground:
  assumes "s \<in> foreground width height binary"
  shows "component width height binary s \<subseteq> foreground width height binary"
proof
  fix q assume "q \<in> component width height binary s"
  then have "(s, q) \<in> (linked width height binary)\<^sup>*" by (simp add: component_def)
  then show "q \<in> foreground width height binary"
    using assms by (induction rule: rtrancl_induct) (auto simp add: linked_def)
qed

lemma component_step:
  "p \<in> component width height binary s \<Longrightarrow> (p, q) \<in> linked width height binary
     \<Longrightarrow> q \<in> component width height binary s"
  by (auto simp add: component_def)

lemma component_eq:
  assumes "q \<in> component width height binary p"
  shows "component width height binary q = component width height binary p"
proof -
  have pq: "(p, q) \<in> (linked width height binary)\<^sup>*"
    using assms by (simp add: component_def)
  then have qp: "(q, p) \<in> (linked width height binary)\<^sup>*"
    using sym_rtrancl [OF linked_sym, of width height binary] by (auto dest: symD)
  show ?thesis
    using pq qp by (auto simp add: component_def intro: rtrancl_trans)
qed

text \<open>A set that contains \<open>s\<close> and is closed under \<open>linked\<close> contains the component.\<close>

lemma component_least:
  assumes "s \<in> A" and "\<And>p q. p \<in> A \<Longrightarrow> (p, q) \<in> linked width height binary \<Longrightarrow> q \<in> A"
  shows "component width height binary s \<subseteq> A"
proof
  fix q assume "q \<in> component width height binary s"
  then have "(s, q) \<in> (linked width height binary)\<^sup>*" by (simp add: component_def)
  then show "q \<in> A"
    using assms by (induction rule: rtrancl_induct) auto
qed

section \<open>The flood fill keeps its invariant\<close>

text \<open>One neighbour of a pixel \<open>p\<close> of the blob: the core invariant is kept, marks are
  only added, and the neighbour is marked afterwards if it is in the foreground.\<close>

lemma visitNeighbour_core:
  assumes s: "s \<in> foreground width height binary"
    and bin: "length binary = nat (width * height)"
    and core: "fillCore width height binary V0 s visited (blob @ stack)"
    and p: "p \<in> set blob" and d: "d \<in> set dirs"
  shows "fillCore width height binary V0 s
           (fst (visitNeighbour width height binary p d (visited, stack)))
           (blob @ snd (visitNeighbour width height binary p d (visited, stack)))
         \<and> marked width height visited
             \<subseteq> marked width height (fst (visitNeighbour width height binary p d (visited, stack)))
         \<and> (neighbour p d \<in> foreground width height binary \<longrightarrow>
              neighbour p d
                \<in> marked width height
                     (fst (visitNeighbour width height binary p d (visited, stack))))"
proof -
  define q where "q = neighbour p d"
  define ni where "ni = idx width (px q) (py q)"
  have len: "length visited = nat (width * height)"
    using core by (simp add: fillCore_def)
  have vn: "visitNeighbour width height binary p d (visited, stack) =
              (if \<not> inBounds width height (px q) (py q) then (visited, stack)
               else if ni < length visited \<and> visited ! ni = 0
                        \<and> ni < length binary \<and> binary ! ni = 1
                    then (visited[ni := 1], q # stack)
                    else (visited, stack))"
    by (simp add: visitNeighbour_def Let_def q_def neighbour_def ni_def)
  show ?thesis
  proof (cases "inBounds width height (px q) (py q)")
    case False
    then have "visitNeighbour width height binary p d (visited, stack) = (visited, stack)"
      by (simp add: vn)
    moreover have "q \<notin> foreground width height binary"
      using False by (simp add: foreground_def)
    ultimately show ?thesis using core by (simp add: q_def)
  next
    case inb: True
    have lt: "ni < length visited" "ni < length binary"
      using idx_less [OF inb] len bin by (simp_all add: ni_def)
    show ?thesis
    proof (cases "visited ! ni = 0 \<and> binary ! ni = 1")
      case False
      then have same: "visitNeighbour width height binary p d (visited, stack) = (visited, stack)"
        using inb by (auto simp add: vn)
      have "q \<in> marked width height visited" if "q \<in> foreground width height binary"
        using that False inb by (auto simp add: foreground_def marked_def ni_def)
      then show ?thesis using core by (simp add: same q_def)
    next
      case new: True
      then have step: "visitNeighbour width height binary p d (visited, stack)
                         = (visited[ni := 1], q # stack)"
        using inb lt by (simp add: vn)
      have qfg: "q \<in> foreground width height binary"
        using new inb by (simp add: foreground_def ni_def)
      have pc: "p \<in> component width height binary s"
        using core p by (auto simp add: fillCore_def)
      then have "p \<in> foreground width height binary"
        using component_foreground [OF s] by auto
      then have "(p, q) \<in> linked width height binary"
        using qfg adjacent8_neighbour [OF d, of p] by (simp add: linked_def q_def)
      then have qc: "q \<in> component width height binary s"
        using pc by (rule component_step [rotated])
      have "q \<notin> marked width height visited"
        using new by (simp add: marked_def ni_def)
      then have fresh: "q \<notin> V0" "q \<notin> set (blob @ stack)"
        using core by (auto simp add: fillCore_def)
      have m: "marked width height (visited[ni := 1]) = insert q (marked width height visited)"
        unfolding ni_def by (rule marked_update [OF inb len])
      have "fillCore width height binary V0 s (visited[ni := 1]) (blob @ q # stack)"
        using core fresh qc unfolding fillCore_def m by auto
      then show ?thesis
        unfolding step fst_conv snd_conv m q_def [symmetric] by auto
    qed
  qed
qed

lemma fold_visitNeighbour_core:
  assumes s: "s \<in> foreground width height binary"
    and bin: "length binary = nat (width * height)"
    and p: "p \<in> set blob"
  shows "set ds \<subseteq> set dirs \<Longrightarrow> fillCore width height binary V0 s visited (blob @ stack) \<Longrightarrow>
         fillCore width height binary V0 s
           (fst (fold (visitNeighbour width height binary p) ds (visited, stack)))
           (blob @ snd (fold (visitNeighbour width height binary p) ds (visited, stack)))
         \<and> marked width height visited
             \<subseteq> marked width height
                  (fst (fold (visitNeighbour width height binary p) ds (visited, stack)))
         \<and> (\<forall>d \<in> set ds. neighbour p d \<in> foreground width height binary \<longrightarrow>
              neighbour p d
                \<in> marked width height
                     (fst (fold (visitNeighbour width height binary p) ds (visited, stack))))"
proof (induction ds arbitrary: visited stack)
  case Nil
  then show ?case by simp
next
  case (Cons d ds)
  obtain visited' stack' where
    st: "visitNeighbour width height binary p d (visited, stack) = (visited', stack')"
    by (cases "visitNeighbour width height binary p d (visited, stack)")
  have d: "d \<in> set dirs" and ds: "set ds \<subseteq> set dirs"
    using Cons.prems(1) by simp_all
  have one: "fillCore width height binary V0 s visited' (blob @ stack')"
    "marked width height visited \<subseteq> marked width height visited'"
    "neighbour p d \<in> foreground width height binary \<longrightarrow>
       neighbour p d \<in> marked width height visited'"
    using visitNeighbour_core [OF s bin Cons.prems(2) p d] by (simp_all add: st)
  from Cons.IH [OF ds one(1)] one(2,3) show ?case
    by (auto simp add: st)
qed

lemma fillInv_step:
  assumes s: "s \<in> foreground width height binary"
    and bin: "length binary = nat (width * height)"
    and inv: "fillInv width height binary V0 s visited (p # stack) blob"
  shows "fillInv width height binary V0 s
           (fst (fold (visitNeighbour width height binary p) dirs (visited, stack)))
           (snd (fold (visitNeighbour width height binary p) dirs (visited, stack)))
           (blob @ [p])"
proof -
  let ?st = "fold (visitNeighbour width height binary p) dirs (visited, stack)"
  have core: "fillCore width height binary V0 s visited ((blob @ [p]) @ stack)"
    using inv by (simp add: fillInv_def)
  have p: "p \<in> set (blob @ [p])" by simp
  have after: "fillCore width height binary V0 s (fst ?st) ((blob @ [p]) @ snd ?st)"
    "marked width height visited \<subseteq> marked width height (fst ?st)"
    "\<forall>d \<in> set dirs. neighbour p d \<in> foreground width height binary \<longrightarrow>
       neighbour p d \<in> marked width height (fst ?st)"
    using fold_visitNeighbour_core [OF s bin p subset_refl core] by simp_all
  have "q \<in> marked width height (fst ?st)"
    if "r \<in> set (blob @ [p])" and l: "(r, q) \<in> linked width height binary" for r q
  proof (cases "r = p")
    case True
    then have "adjacent8 p q" and qfg: "q \<in> foreground width height binary"
      using l by (simp_all add: linked_def)
    then obtain d where "d \<in> set dirs" "q = neighbour p d"
      using adjacent8_dirs by blast
    then show ?thesis using after(3) qfg by blast
  next
    case False
    then have "r \<in> set blob" using that(1) by simp
    then have "q \<in> marked width height visited"
      using inv l by (auto simp add: fillInv_def)
    then show ?thesis using after(2) by blast
  qed
  then show ?thesis
    unfolding fillInv_def using after(1) by blast
qed

lemma floodFill_inv:
  "s \<in> foreground width height binary \<Longrightarrow> length binary = nat (width * height) \<Longrightarrow>
   fillInv width height binary V0 s visited stack blob \<Longrightarrow>
   fillInv width height binary V0 s
     (fst (floodFill width height binary visited stack blob)) []
     (snd (floodFill width height binary visited stack blob))"
proof (induction width height binary visited stack blob rule: floodFill.induct)
  case (1 width height binary visited blob)
  then show ?case by (simp add: floodFill.simps)
next
  case (2 width height binary visited p stack blob)
  show ?case
    unfolding floodFill.simps
    by (rule "2.IH" [OF "2.prems"(1,2) fillInv_step [OF "2.prems"]])
qed

section \<open>One fill and one step of the scan\<close>

lemma marked_replicate: "marked width height (replicate (nat (width * height)) 0) = {}"
proof -
  have "replicate (nat (width * height)) (0::nat) ! idx width (px p) (py p) = 0"
    if "inBounds width height (px p) (py p)" for p :: "int Point"
    using idx_less [OF that] by simp
  then show ?thesis by (auto simp add: marked_def)
qed

text \<open>A fill started at an unmarked foreground pixel \<open>s\<close>, when the marked pixels form
  a union of components: the blob lists the component of \<open>s\<close> without repetition, and
  exactly that component gets marked.\<close>

lemma floodFill_seed:
  assumes s: "s \<in> foreground width height binary"
    and bin: "length binary = nat (width * height)"
    and len: "length visited = nat (width * height)"
    and fresh: "s \<notin> marked width height visited"
    and closed: "\<forall>p \<in> marked width height visited. \<forall>q. (p, q) \<in> linked width height binary
                   \<longrightarrow> q \<in> marked width height visited"
  defines "filled \<equiv> floodFill width height binary
                       (visited[idx width (px s) (py s) := 1]) [s] []"
  shows "distinct (snd filled)
         \<and> set (snd filled) = component width height binary s
         \<and> marked width height (fst filled)
             = marked width height visited \<union> component width height binary s
         \<and> length (fst filled) = nat (width * height)"
proof -
  let ?V0 = "marked width height visited"
  have inb: "inBounds width height (px s) (py s)"
    using s by (simp add: foreground_def)
  have m: "marked width height (visited[idx width (px s) (py s) := 1]) = insert s ?V0"
    by (rule marked_update [OF inb len])
  have "fillCore width height binary ?V0 s (visited[idx width (px s) (py s) := 1]) ([] @ [s])"
    unfolding fillCore_def m using len fresh component_refl [of s width height binary]
    by auto
  then have "fillInv width height binary ?V0 s (visited[idx width (px s) (py s) := 1]) [s] []"
    by (simp add: fillInv_def)
  from floodFill_inv [OF s bin this]
  have fin: "fillInv width height binary ?V0 s (fst filled) [] (snd filled)"
    by (simp add: filled_def)
  then have core: "length (fst filled) = nat (width * height)" "distinct (snd filled)"
    "s \<in> set (snd filled)" "set (snd filled) \<subseteq> component width height binary s"
    "marked width height (fst filled) = ?V0 \<union> set (snd filled)"
    "?V0 \<inter> set (snd filled) = {}"
    by (simp_all add: fillInv_def fillCore_def)
  have nb: "\<forall>p \<in> set (snd filled). \<forall>q. (p, q) \<in> linked width height binary
               \<longrightarrow> q \<in> marked width height (fst filled)"
    using fin unfolding fillInv_def by blast
  have "q \<in> set (snd filled)"
    if p: "p \<in> set (snd filled)" and l: "(p, q) \<in> linked width height binary" for p q
  proof (rule ccontr)
    assume "q \<notin> set (snd filled)"
    then have "q \<in> ?V0" using nb p l core(5) by auto
    moreover have "(q, p) \<in> linked width height binary"
      using l linked_sym [of width height binary] by (auto dest: symD)
    ultimately have "p \<in> ?V0" using closed by blast
    then show False using p core(6) by auto
  qed
  then have "component width height binary s \<subseteq> set (snd filled)"
    using core(3) by (intro component_least) auto
  then have "set (snd filled) = component width height binary s"
    using core(4) by auto
  then show ?thesis using core by simp
qed

lemma scanPixel_inv:
  assumes bin: "length binary = nat (width * height)"
    and inb: "inBounds width height (fst pos) (snd pos)"
    and inv: "scanInv width height binary D visited contours"
  shows "scanInv width height binary (insert pos D)
           (fst (scanPixel width height binary pos (visited, contours)))
           (snd (scanPixel width height binary pos (visited, contours)))"
proof -
  define s :: "int Point" where "s = \<lparr>px = fst pos, py = snd pos\<rparr>"
  define id where "id = idx width (fst pos) (snd pos)"
  have sxy: "px s = fst pos" "py s = snd pos" by (simp_all add: s_def)
  have pos_s: "(px p, py p) = pos \<longleftrightarrow> p = s" for p :: "int Point"
    by (auto simp add: s_def)
  have len: "length visited = nat (width * height)"
    using inv by (simp add: scanInv_def)
  have lt: "id < length binary" "id < length visited"
    using idx_less [OF inb] bin len by (simp_all add: id_def)
  show ?thesis
  proof (cases "binary ! id = 1 \<and> visited ! id = 0")
    case False
    then have same: "scanPixel width height binary pos (visited, contours) = (visited, contours)"
      by (auto simp add: scanPixel_def Let_def id_def)
    have "s \<in> marked width height visited" if "s \<in> foreground width height binary"
      using that False inb by (auto simp add: foreground_def marked_def sxy id_def)
    then show ?thesis
      using inv unfolding same fst_conv snd_conv scanInv_def
      by (auto simp add: pos_s)
  next
    case seed: True
    define filled where
      "filled = floodFill width height binary (visited[id := 1]) [s] []"
    define blob where "blob = snd filled"
    have step: "scanPixel width height binary pos (visited, contours)
                  = (fst filled, if length blob > 20 then contours @ [blob] else contours)"
      using seed lt
      by (simp add: scanPixel_def Let_def id_def [symmetric] filled_def blob_def s_def)
    have sfg: "s \<in> foreground width height binary"
      using seed inb by (simp add: foreground_def sxy id_def)
    have fresh: "s \<notin> marked width height visited"
      using seed by (simp add: marked_def sxy id_def)
    have closed: "\<forall>p \<in> marked width height visited. \<forall>q. (p, q) \<in> linked width height binary
                    \<longrightarrow> q \<in> marked width height visited"
      using inv by (simp add: scanInv_def)
    have fill: "distinct blob" "set blob = component width height binary s"
      "marked width height (fst filled)
         = marked width height visited \<union> component width height binary s"
      "length (fst filled) = nat (width * height)"
      using floodFill_seed [OF sfg bin len fresh closed]
      by (simp_all add: filled_def blob_def sxy id_def)
    let ?V = "marked width height visited"
    let ?C = "component width height binary s"
    have Cfg: "?C \<subseteq> foreground width height binary"
      by (rule component_foreground [OF sfg])
    have Cclosed: "q \<in> ?C" if "p \<in> ?C" "(p, q) \<in> linked width height binary" for p q
      using that by (rule component_step)
    have card: "card ?C = length blob"
      using fill(1,2) distinct_card by metis
    have Ccomp: "?C \<in> components width height binary"
      using sfg by (simp add: components_def)
    have disjoint: "?V \<inter> ?C = {}"
    proof (rule ccontr)
      assume "?V \<inter> ?C \<noteq> {}"
      then obtain p where p: "p \<in> ?V" "p \<in> ?C" by auto
      have "?C \<subseteq> ?V"
      proof -
        have "component width height binary p \<subseteq> ?V"
          using p(1) closed by (intro component_least) auto
        then show ?thesis using component_eq [OF p(2)] by simp
      qed
      then show False using fresh component_refl [of s width height binary] by auto
    qed
    have new: "set blob \<notin> set (map set contours)"
    proof
      assume "set blob \<in> set (map set contours)"
      then obtain c where c: "c \<in> set contours" "set c = ?C" using fill(2) by auto
      have "set c \<subseteq> ?V" using inv c(1) unfolding scanInv_def by blast
      then have "?C \<subseteq> ?V" using c(2) by simp
      then show False using disjoint component_refl [of s width height binary] by auto
    qed
    have big: "\<exists>c \<in> set (if length blob > 20 then contours @ [blob] else contours).
                 set c = component width height binary p"
      if p: "p \<in> ?V \<union> ?C" and c: "20 < card (component width height binary p)" for p
    proof (cases "p \<in> ?C")
      case True
      then have "component width height binary p = ?C" by (rule component_eq)
      then show ?thesis using c card fill(2) by auto
    next
      case False
      then have "p \<in> ?V" using p by simp
      then show ?thesis using inv c by (auto simp add: scanInv_def)
    qed
    have old: "distinct c \<and> 20 < length c \<and> set c \<in> components width height binary
               \<and> set c \<subseteq> ?V \<union> ?C"
      if "c \<in> set (if length blob > 20 then contours @ [blob] else contours)" for c
    proof (cases "c \<in> set contours")
      case True
      then show ?thesis using inv by (auto simp add: scanInv_def)
    next
      case False
      then have "c = blob" "20 < length blob" using that by (auto split: if_splits)
      then show ?thesis using fill(1,2) Ccomp by auto
    qed
    have dist: "distinct (map set (if length blob > 20 then contours @ [blob] else contours))"
      using inv new by (auto simp add: scanInv_def)
    have sub: "?V \<union> ?C \<subseteq> foreground width height binary"
      using inv Cfg by (auto simp add: scanInv_def)
    have cl: "\<forall>p \<in> ?V \<union> ?C. \<forall>q. (p, q) \<in> linked width height binary \<longrightarrow> q \<in> ?V \<union> ?C"
      using closed Cclosed by blast
    have seen: "\<forall>p \<in> foreground width height binary. (px p, py p) \<in> insert pos D
                  \<longrightarrow> p \<in> ?V \<union> ?C"
      using inv component_refl [of s width height binary]
      by (auto simp add: scanInv_def pos_s)
    show ?thesis
      unfolding step fst_conv snd_conv scanInv_def fill(3)
      using fill(4) sub cl seen old big dist by blast
  qed
qed

section \<open>The contours are the components of more than 20 pixels\<close>

lemma fold_scanPixel_inv:
  assumes bin: "length binary = nat (width * height)"
  shows "\<forall>pos \<in> set ps. inBounds width height (fst pos) (snd pos) \<Longrightarrow>
         scanInv width height binary D (fst st) (snd st) \<Longrightarrow>
         scanInv width height binary (D \<union> set ps)
           (fst (fold (scanPixel width height binary) ps st))
           (snd (fold (scanPixel width height binary) ps st))"
proof (induction ps arbitrary: D st)
  case Nil
  then show ?case by simp
next
  case (Cons pos ps)
  have inb: "inBounds width height (fst pos) (snd pos)"
    and rest: "\<forall>pos \<in> set ps. inBounds width height (fst pos) (snd pos)"
    using Cons.prems(1) by simp_all
  have "scanInv width height binary (insert pos D)
          (fst (scanPixel width height binary pos st))
          (snd (scanPixel width height binary pos st))"
    using scanPixel_inv [OF bin inb, of D "fst st" "snd st"] Cons.prems(2) by simp
  from Cons.IH [OF rest this] show ?case by simp
qed

lemma scanInv_initial:
  "scanInv width height binary {} (replicate (nat (width * height)) 0) []"
  by (simp add: scanInv_def marked_replicate)

text \<open>What the scan returns: the contours are the components of more than 20 pixels,
  each listed once and without repetition.\<close>

lemma findContours_components:
  assumes bin: "length binary = nat (width * height)"
  shows "distinct (map set (findContours width height binary))"
    and "\<forall>c \<in> set (findContours width height binary).
           distinct c \<and> 20 < length c \<and> set c \<in> components width height binary"
    and "\<forall>C \<in> components width height binary.
           20 < card C \<longrightarrow> (\<exists>c \<in> set (findContours width height binary). set c = C)"
proof -
  let ?st = "fold (scanPixel width height binary) (scanOrder width height)
               (replicate (nat (width * height)) 0, [])"
  have "\<forall>pos \<in> set (scanOrder width height). inBounds width height (fst pos) (snd pos)"
    by (auto simp add: set_scanOrder)
  from fold_scanPixel_inv [OF bin this, of "{}" "(replicate (nat (width * height)) 0, [])"]
  have inv: "scanInv width height binary (set (scanOrder width height))
               (fst ?st) (findContours width height binary)"
    using scanInv_initial [of width height binary] by (simp add: findContours_def)
  show "distinct (map set (findContours width height binary))"
    using inv by (simp add: scanInv_def)
  show "\<forall>c \<in> set (findContours width height binary).
           distinct c \<and> 20 < length c \<and> set c \<in> components width height binary"
    using inv unfolding scanInv_def by blast
  have all: "p \<in> marked width height (fst ?st)" if "p \<in> foreground width height binary" for p
  proof -
    have "(px p, py p) \<in> set (scanOrder width height)"
      using that by (simp add: set_scanOrder foreground_def)
    then show ?thesis using inv that unfolding scanInv_def by blast
  qed
  show "\<forall>C \<in> components width height binary.
           20 < card C \<longrightarrow> (\<exists>c \<in> set (findContours width height binary). set c = C)"
  proof (intro ballI impI)
    fix C assume "C \<in> components width height binary" and big: "20 < card C"
    then obtain p where p: "p \<in> foreground width height binary"
      and C: "C = component width height binary p"
      by (auto simp add: components_def)
    have "p \<in> marked width height (fst ?st)" using all [OF p] .
    then show "\<exists>c \<in> set (findContours width height binary). set c = C"
      using inv big unfolding scanInv_def C by blast
  qed
qed

lemma length_binarize: "length (binarize gray width height) = length gray"
  by (simp add: binarize_def)

lemma length_toGrayscale: "length (toGrayscale data width height) = nat (width * height)"
  by (simp add: toGrayscale_def)

lemma sourceBlobs_components:
  shows "distinct (map set (sourceBlobs data width height))"
    and "\<forall>c \<in> set (sourceBlobs data width height).
           distinct c \<and> 20 < length c
           \<and> set c \<in> components width height
                        (binarize (toGrayscale data width height) width height)"
    and "\<forall>C \<in> components width height
                  (binarize (toGrayscale data width height) width height).
           20 < card C \<longrightarrow> (\<exists>c \<in> set (sourceBlobs data width height). set c = C)"
proof -
  have len: "length (binarize (toGrayscale data width height) width height)
               = nat (width * height)"
    by (simp add: length_binarize length_toGrayscale)
  show "distinct (map set (sourceBlobs data width height))"
    unfolding sourceBlobs_def by (rule findContours_components(1) [OF len])
  show "\<forall>c \<in> set (sourceBlobs data width height).
           distinct c \<and> 20 < length c
           \<and> set c \<in> components width height
                        (binarize (toGrayscale data width height) width height)"
    unfolding sourceBlobs_def by (rule findContours_components(2) [OF len])
  show "\<forall>C \<in> components width height
                  (binarize (toGrayscale data width height) width height).
           20 < card C \<longrightarrow> (\<exists>c \<in> set (sourceBlobs data width height). set c = C)"
    unfolding sourceBlobs_def by (rule findContours_components(3) [OF len])
qed

text \<open>
  Claim C3. The foreground of an image is the set of pixels whose cell of the binary
  mask is 1; its 8-connected components are the classes of foreground pixels linked by
  chains of neighbours (each pixel has up to 8 neighbours). \<open>detectShapes\<close> returns one
  shape per surviving blob; every surviving blob lists, without repetition, the pixels of
  one component of more than 20 pixels; no component is listed twice; and a component
  is the pixel set of a surviving blob exactly when it has more than 20 pixels. So no
  component of at most 20 pixels appears in the output.
\<close>

theorem noise_filter_components:
  assumes "detectShapes data width height = Inr result"
  shows "shapes result = map analyzeContour (sourceBlobs data width height)
         \<and> distinct (map set (sourceBlobs data width height))
         \<and> (\<forall>c \<in> set (sourceBlobs data width height).
               distinct c \<and> 20 < length c
               \<and> set c \<in> components width height
                            (binarize (toGrayscale data width height) width height))
         \<and> (\<forall>C \<in> components width height
                      (binarize (toGrayscale data width height) width height).
               (\<exists>c \<in> set (sourceBlobs data width height). set c = C) \<longleftrightarrow> 20 < card C)"
proof (intro conjI ballI iffI)
  show "shapes result = map analyzeContour (sourceBlobs data width height)"
    by (rule detectShapes_result [OF assms])
  show "distinct (map set (sourceBlobs data width height))"
    by (rule sourceBlobs_components(1))
next
  fix c assume c: "c \<in> set (sourceBlobs data width height)"
  show "distinct c" "20 < length c"
    "set c \<in> components width height (binarize (toGrayscale data width height) width height)"
    using sourceBlobs_components(2) [THEN bspec, OF c] by simp_all
next
  fix C
  assume "\<exists>c \<in> set (sourceBlobs data width height). set c = C"
  then obtain c where c: "c \<in> set (sourceBlobs data width height)" and C: "set c = C"
    by blast
  have "distinct c" "20 < length c"
    using sourceBlobs_components(2) [THEN bspec, OF c] by simp_all
  then show "20 < card C"
    using C distinct_card [of c] by simp
next
  fix C
  assume "C \<in> components width height (binarize (toGrayscale data width height) width height)"
    and "20 < card C"
  then show "\<exists>c \<in> set (sourceBlobs data width height). set c = C"
    using sourceBlobs_components(3) [THEN bspec, of C] by simp
qed

lemma noisy_gray: "toGrayscale noisyData 9 7 = noisyGray"
  by code_simp

lemma noisy_mask: "binarize noisyGray 9 7 = noisyMask"
  by code_simp

lemma noisy_contours: "findContours 9 7 noisyMask = [demoBlob]"
  by code_simp

lemma noisy_sourceBlobs: "sourceBlobs noisyData 9 7 = [demoBlob]"
  by (simp add: sourceBlobs_def noisy_gray noisy_mask noisy_contours)

lemma noisy_detect:
  "detectShapes noisyData 9 7 =
     Inr \<lparr>shapes = [analyzeContour demoBlob], imageWidth = 9, imageHeight = 7\<rparr>"
  by (simp add: detectShapes_def detectGray_def noisy_gray noisy_mask noisy_contours)

text \<open>A foreground pixel with no foreground neighbour is a component of its own.\<close>

lemma component_isolated:
  assumes "\<forall>d \<in> set dirs. neighbour p d \<notin> foreground width height binary"
  shows "component width height binary p = {p}"
proof -
  have "q \<in> {p}" if "r \<in> {p}" "(r, q) \<in> linked width height binary" for r q
  proof -
    have "adjacent8 p q" "q \<in> foreground width height binary"
      using that by (simp_all add: linked_def)
    then show ?thesis using adjacent8_dirs assms by blast
  qed
  then have "component width height binary p \<subseteq> {p}"
    by (intro component_least) simp_all
  then show ?thesis using component_refl [of p width height binary] by auto
qed

lemma noisy_speck_foreground: "\<lparr>px = 7, py = 3\<rparr> \<in> foreground 9 7 noisyMask"
proof -
  have "inBounds 9 7 7 3 \<and> noisyMask ! idx 9 7 3 = 1"
    by code_simp
  then show ?thesis by (simp add: foreground_def)
qed

lemma noisy_speck_alone:
  "\<forall>d \<in> set dirs. neighbour \<lparr>px = 7, py = 3\<rparr> d \<notin> foreground 9 7 noisyMask"
proof -
  have "list_all (\<lambda>d. \<not> (inBounds 9 7 (7 + fst d) (3 + snd d)
                            \<and> noisyMask ! idx 9 (7 + fst d) (3 + snd d) = 1)) dirs"
    by code_simp
  then show ?thesis
    unfolding list_all_iff by (simp add: foreground_def neighbour_def)
qed

lemma noisy_speck_component: "component 9 7 noisyMask \<lparr>px = 7, py = 3\<rparr> = {\<lparr>px = 7, py = 3\<rparr>}"
  by (rule component_isolated [OF noisy_speck_alone])

theorem noise_filter_components_witness:
  "sourceBlobs noisyData 9 7 = [demoBlob]
   \<and> set demoBlob \<in> components 9 7 noisyMask \<and> 20 < card (set demoBlob)
   \<and> {\<lparr>px = 7, py = 3\<rparr>} \<in> components 9 7 noisyMask
   \<and> \<not> (\<exists>c \<in> set (sourceBlobs noisyData 9 7). set c = {\<lparr>px = 7, py = 3\<rparr>})"
proof -
  have in_blobs: "demoBlob \<in> set (sourceBlobs noisyData 9 7)"
    by (simp add: noisy_sourceBlobs)
  have speck: "{\<lparr>px = 7, py = 3\<rparr>} \<in> components 9 7 noisyMask"
    using noisy_speck_foreground noisy_speck_component
    unfolding components_def by (metis image_eqI)
  have all: "(\<forall>c \<in> set (sourceBlobs noisyData 9 7).
               distinct c \<and> 20 < length c \<and> set c \<in> components 9 7 noisyMask)
         \<and> (\<forall>C \<in> components 9 7 noisyMask.
               (\<exists>c \<in> set (sourceBlobs noisyData 9 7). set c = C) \<longleftrightarrow> 20 < card C)"
    using noise_filter_components [OF noisy_detect] unfolding noisy_gray noisy_mask
    by blast
  then have blob: "set demoBlob \<in> components 9 7 noisyMask"
    using in_blobs by blast
  then have "20 < card (set demoBlob)"
    using all in_blobs by blast
  moreover have "\<not> (\<exists>c \<in> set (sourceBlobs noisyData 9 7). set c = {\<lparr>px = 7, py = 3\<rparr>})"
  proof -
    have "\<not> 20 < card {\<lparr>px = 7, py = (3::int)\<rparr> :: int Point}" by simp
    then show ?thesis using all speck by blast
  qed
  ultimately show ?thesis using blob speck by (simp add: noisy_sourceBlobs)
qed

section \<open>Classification\<close>

lemma foldl_plus_map:
  "foldl (\<lambda>a b. a + f b) a xs = a + sum_list (map f xs)"
  for a :: "'a :: comm_monoid_add"
  by (induction xs arbitrary: a) (simp_all add: add.assoc)

lemma computeCenter_centroid:
  "contour \<noteq> [] \<Longrightarrow> computeCenter contour = Some (centroid contour)"
  by (simp add: computeCenter_def centroid_def Let_def foldl_plus_map)

lemma radiiOf_centroid: "radiiOf (centroid contour) contour = radialDistances contour"
  by (simp add: radiiOf_def radialDistances_def hypot_def)

lemma meanOf_mean: "meanOf radii = mean radii"
  using foldl_plus_map [of "\<lambda>b. b" 0 radii] by (simp add: meanOf_def mean_def)

lemma varianceOf_stddev: "sqrt (varianceOf radii) = stddev radii"
  by (simp add: varianceOf_def stddev_def foldl_plus_map meanOf_mean)

lemma mean_zero_variance_zero:
  assumes "meanOf (radiiOf c contour) = 0"
  shows "varianceOf (radiiOf c contour) = 0"
proof (cases "contour = []")
  case True
  then show ?thesis by (simp add: varianceOf_def radiiOf_def)
next
  case False
  let ?rs = "radiiOf c contour"
  have nonneg: "\<forall>r \<in> set ?rs. 0 \<le> r"
    by (auto simp add: radiiOf_def hypot_def)
  have "sum_list ?rs = 0"
    using assms False by (simp add: meanOf_mean mean_def radiiOf_def)
  then have zero: "\<forall>r \<in> set ?rs. r = 0"
    using nonneg sum_list_nonneg_eq_0_iff [of ?rs] by simp
  have "map (\<lambda>b. (b - meanOf ?rs)\<^sup>2) ?rs = map (\<lambda>b. 0) ?rs"
  proof (rule map_cong [OF refl])
    fix b assume "b \<in> set ?rs"
    then have "b = 0" using zero by blast
    then show "(b - meanOf ?rs)\<^sup>2 = 0" using assms by simp
  qed
  then have "sum_list (map (\<lambda>b. (b - meanOf ?rs)\<^sup>2) ?rs) = sum_list (map (\<lambda>b. 0) ?rs)"
    by (rule arg_cong)
  then have "sum_list (map (\<lambda>b. (b - meanOf ?rs)\<^sup>2) ?rs) = 0"
    by simp
  then show ?thesis
    by (simp add: varianceOf_def foldl_plus_map)
qed

lemma sum_list_pos:
  fixes xs :: "real list"
  assumes "\<forall>x \<in> set xs. 0 \<le> x" and "x \<in> set xs" and "0 < x"
  shows "0 < sum_list xs"
  using assms
proof (induction xs)
  case Nil
  then show ?case by simp
next
  case (Cons a xs)
  have "0 \<le> sum_list xs" using Cons.prems(1) by (intro sum_list_nonneg) simp
  moreover have "0 \<le> a" using Cons.prems(1) by simp
  ultimately show ?case
    using Cons by (cases "x = a") (auto simp add: add_pos_nonneg add_nonneg_pos)
qed

lemma radius_zero_iff:
  "sqrt ((real_of_int (px p) - cx)\<^sup>2 + (real_of_int (py p) - cy)\<^sup>2) = 0
     \<longleftrightarrow> real_of_int (px p) = cx \<and> real_of_int (py p) = cy"
  by (simp add: sum_power2_eq_zero_iff)

text \<open>With two different points in the contour, some point is off the centroid, so the
  mean radius is positive.\<close>

lemma mean_radius_positive:
  assumes "p \<in> set contour" "q \<in> set contour" "p \<noteq> (q :: int Point)"
  shows "0 < mean (radialDistances contour)"
proof -
  let ?r = "\<lambda>p. sqrt ((real_of_int (px p) - px (centroid contour))\<^sup>2
                      + (real_of_int (py p) - py (centroid contour))\<^sup>2)"
  have nonneg: "\<forall>x \<in> set (radialDistances contour). 0 \<le> x"
    by (auto simp add: radialDistances_def)
  have "?r p \<noteq> 0 \<or> ?r q \<noteq> 0"
  proof (rule ccontr)
    assume "\<not> (?r p \<noteq> 0 \<or> ?r q \<noteq> 0)"
    then have "real_of_int (px p) = real_of_int (px q)" "real_of_int (py p) = real_of_int (py q)"
      unfolding radius_zero_iff by simp_all
    then have "p = q" by simp
    then show False using assms(3) by simp
  qed
  then obtain u where u: "u \<in> set contour" "?r u \<noteq> 0"
    using assms(1,2) by blast
  then have "?r u \<in> set (radialDistances contour)" "0 < ?r u"
    by (auto simp add: radialDistances_def less_le)
  then have "0 < sum_list (radialDistances contour)"
    using sum_list_pos [OF nonneg] by blast
  moreover have "0 < real (length (radialDistances contour))"
    using assms(1) by (auto simp add: radialDistances_def)
  ultimately show ?thesis by (simp add: mean_def)
qed

lemma coefficientOfVariation_spec:
  assumes "p \<in> set contour" "q \<in> set contour" "p \<noteq> (q :: int Point)"
  shows "coefficientOfVariation contour = Some (specCv contour)"
proof -
  have ne: "contour \<noteq> []" using assms(1) by auto
  have "mean (radialDistances contour) \<noteq> 0"
    using mean_radius_positive [OF assms] by simp
  then show ?thesis
    by (simp add: coefficientOfVariation_def computeCenter_centroid [OF ne] radiiOf_centroid
          meanOf_mean varianceOf_stddev specCv_def Let_def)
qed

lemma two_points:
  assumes "distinct c" "20 < length c"
  shows "\<exists>p \<in> set c. \<exists>q \<in> set c. p \<noteq> q"
proof -
  have l: "0 < length c" "1 < length c" using assms(2) by linarith+
  then have "c ! 0 \<in> set c" "c ! 1 \<in> set c" by (simp_all only: nth_mem)
  moreover have "c ! 0 \<noteq> c ! 1"
    using nth_eq_iff_index_eq [OF assms(1) l] by simp
  ultimately show ?thesis by blast
qed

lemma sourceBlobs_two_points:
  assumes "contour \<in> set (sourceBlobs data width height)"
  shows "\<exists>p \<in> set contour. \<exists>q \<in> set contour. p \<noteq> q"
  using sourceBlobs_components(2) [THEN bspec, OF assms] by (intro two_points) simp_all

text \<open>
  Claim C9. In the circularity branch of \<open>classifyShape\<close>, for every blob with at least
  two different pixels, the centroid is a number, the list of radii is not empty and the
  mean radius is strictly positive: none of the three divisions divides by zero, and
  \<open>cv\<close> is the number \<open>sqrt(variance) / mean\<close>, not NaN. Every blob that survives the
  noise filter has two different pixels.
\<close>

theorem circularity_divisions_safe:
  "(\<forall>contour. (\<exists>p \<in> set contour. \<exists>q \<in> set contour. p \<noteq> q) \<longrightarrow>
      (\<exists>c. computeCenter contour = Some c
           \<and> length contour \<noteq> 0
           \<and> radiiOf c contour \<noteq> []
           \<and> length (radiiOf c contour) \<noteq> 0
           \<and> 0 < meanOf (radiiOf c contour)
           \<and> coefficientOfVariation contour
               = Some (sqrt (varianceOf (radiiOf c contour)) / meanOf (radiiOf c contour))))
   \<and> (\<forall>contour \<in> set (sourceBlobs data width height).
        \<exists>p \<in> set contour. \<exists>q \<in> set contour. p \<noteq> q)"
proof (intro conjI allI impI ballI)
  fix contour :: "int Point list"
  assume "\<exists>p \<in> set contour. \<exists>q \<in> set contour. p \<noteq> q"
  then obtain p q where pq: "p \<in> set contour" "q \<in> set contour" "p \<noteq> q" by blast
  have ne: "contour \<noteq> []" using pq(1) by auto
  have pos: "0 < meanOf (radiiOf (centroid contour) contour)"
    using mean_radius_positive [OF pq] by (simp add: radiiOf_centroid meanOf_mean)
  have "coefficientOfVariation contour
          = Some (sqrt (varianceOf (radiiOf (centroid contour) contour))
                  / meanOf (radiiOf (centroid contour) contour))"
    using pos by (simp add: coefficientOfVariation_def computeCenter_centroid [OF ne] Let_def)
  then show "\<exists>c. computeCenter contour = Some c
           \<and> length contour \<noteq> 0
           \<and> radiiOf c contour \<noteq> []
           \<and> length (radiiOf c contour) \<noteq> 0
           \<and> 0 < meanOf (radiiOf c contour)
           \<and> coefficientOfVariation contour
               = Some (sqrt (varianceOf (radiiOf c contour)) / meanOf (radiiOf c contour))"
    using pos ne computeCenter_centroid [OF ne] by (auto simp add: radiiOf_def)
next
  fix contour assume "contour \<in> set (sourceBlobs data width height)"
  then show "\<exists>p \<in> set contour. \<exists>q \<in> set contour. p \<noteq> q"
    by (rule sourceBlobs_two_points)
qed

theorem circularity_divisions_safe_witness:
  "\<exists>c. computeCenter demoBlob = Some c
      \<and> radiiOf c demoBlob \<noteq> []
      \<and> 0 < meanOf (radiiOf c demoBlob)
      \<and> coefficientOfVariation demoBlob
          = Some (sqrt (varianceOf (radiiOf c demoBlob)) / meanOf (radiiOf c demoBlob))"
proof -
  have "demoBlob \<in> set (sourceBlobs demoData 7 7)"
    by (simp add: demo_sourceBlobs)
  then have "\<exists>p \<in> set demoBlob. \<exists>q \<in> set demoBlob. p \<noteq> q"
    using circularity_divisions_safe [of demoData 7 7] by blast
  then show ?thesis
    using circularity_divisions_safe [of demoData 7 7] by blast
qed

lemma classifyShape_spec:
  assumes "p \<in> set contour" "q \<in> set contour" "p \<noteq> (q :: int Point)"
  shows "classifyShape approx contour w h =
           (if length approx = 3 then Triangle
            else if length approx = 4 then Rectangle
            else if length approx = 5 then Pentagon
            else if specCv contour < 0.15 then Circle
            else Star)"
  by (simp add: classifyShape_def Let_def coefficientOfVariation_spec [OF assms])

lemma analyzeContour_type:
  "shape_type (analyzeContour contour) =
     classifyShape (rdpSimplify contour 3) contour
       (maxOf (map px contour) - minOf (map px contour))
       (maxOf (map py contour) - minOf (map py contour))"
  by (simp add: analyzeContour_def Let_def)

text \<open>
  Claim C1. For every blob that reaches classification (every surviving blob of
  \<open>detectShapes\<close>), the type of its shape is triangle when the simplified polygon has
  exactly 3 vertices, rectangle for exactly 4, pentagon for exactly 5, tested in that
  order; otherwise, with the point-average centroid of the whole blob, the distances of
  the blob's points to it and \<open>cv\<close> = standard deviation / mean of these distances, it is
  circle when \<open>cv < 0.15\<close> and star in every other case.
\<close>

theorem classification_table:
  assumes "detectShapes data width height = Inr result"
  shows "list_all2
           (\<lambda>s contour.
              shape_type s =
                (if length (rdpSimplify contour 3) = 3 then Triangle
                 else if length (rdpSimplify contour 3) = 4 then Rectangle
                 else if length (rdpSimplify contour 3) = 5 then Pentagon
                 else if specCv contour < 0.15 then Circle
                 else Star))
           (shapes result) (sourceBlobs data width height)"
  unfolding detectShapes_result [OF assms]
proof (rule list_all2_map_same)
  fix c assume "c \<in> set (sourceBlobs data width height)"
  then obtain p q where "p \<in> set c" "q \<in> set c" "p \<noteq> q"
    using sourceBlobs_two_points by blast
  then show "shape_type (analyzeContour c) =
                (if length (rdpSimplify c 3) = 3 then Triangle
                 else if length (rdpSimplify c 3) = 4 then Rectangle
                 else if length (rdpSimplify c 3) = 5 then Pentagon
                 else if specCv c < 0.15 then Circle
                 else Star)"
    unfolding analyzeContour_type by (rule classifyShape_spec)
qed

theorem classification_table_witness:
  "shape_type (analyzeContour demoBlob) =
     (if length (rdpSimplify demoBlob 3) = 3 then Triangle
      else if length (rdpSimplify demoBlob 3) = 4 then Rectangle
      else if length (rdpSimplify demoBlob 3) = 5 then Pentagon
      else if specCv demoBlob < 0.15 then Circle
      else Star)"
  using classification_table [OF demo_detect]
  unfolding demo_sourceBlobs
  by (simp (no_asm_use) only: DetectionResult.simps list_all2_Cons list_all2_Nil simp_thms)

end
